theory Spec2Isabelle
  imports Main "HOL-Library.Sublist"
begin

section \<open>Style build pipeline of arco-scripts (compileStyle.ts)\<close>

text \<open>
  The development embeds \<^verbatim>\<open>packages/arco-scripts/src/scripts/build/component/compileStyle.ts\<close>.
  JavaScript strings are modelled as \<^typ>\<open>string\<close> (8-bit characters), the file system as
  a map from path strings to file contents, and the values imported from modules
  outside the file (the style configuration, the build-mode constant, the compiler, the
  minifier, \<^verbatim>\<open>glob.sync\<close>, the working directory) are parameters.
\<close>

subsection \<open>JavaScript string primitives\<close>

text \<open>\<^verbatim>\<open>String.prototype.indexOf\<close> with a one-character needle: the index of the first
  occurrence, or \<open>-1\<close>.\<close>

fun indexOf :: "string \<Rightarrow> char \<Rightarrow> int" where
  "indexOf [] c = - 1"
| "indexOf (x # xs) c =
     (if x = c then 0 else (let i = indexOf xs c in if i < 0 then - 1 else i + 1))"

text \<open>\<^verbatim>\<open>String.prototype.slice(start)\<close>: a negative start counts from the end, and the
  start is clamped to the string.\<close>

definition slice :: "string \<Rightarrow> int \<Rightarrow> string" where
  "slice s start =
     (let n = int (length s);
          k = (if start < 0 then max (n + start) 0 else min start n)
      in drop (nat k) s)"

text \<open>\<^verbatim>\<open>String.prototype.startsWith\<close>.\<close>

definition startsWith :: "string \<Rightarrow> string \<Rightarrow> bool" where
  "startsWith s p = (take (length p) s = p)"

text \<open>\<^verbatim>\<open>Array.prototype.join\<close>.\<close>

fun join :: "string \<Rightarrow> string list \<Rightarrow> string" where
  "join sep [] = []"
| "join sep [x] = x"
| "join sep (x # y # ys) = x @ sep @ join sep (y # ys)"

text \<open>String coercion of a possibly undefined configuration value, as in
  \<^verbatim>\<open>cssConfig.output.es + ...\<close> and in template literals.\<close>

definition js_str :: "string option \<Rightarrow> string" where
  "js_str v = (case v of None \<Rightarrow> ''undefined'' | Some s \<Rightarrow> s)"

subsection \<open>POSIX \<^verbatim>\<open>path.relative\<close>\<close>

text \<open>
  Node's \<^verbatim>\<open>path.relative(from, to)\<close> resolves both arguments against the working directory,
  drops the segments they share and climbs out of what is left of \<open>from\<close>. The working
  directory is given as the list of its segments below the root.
\<close>

fun split_slash :: "string \<Rightarrow> string list" where
  "split_slash [] = [[]]"
| "split_slash (x # xs) =
     (if x = CHR ''/'' then [] # split_slash xs
      else (case split_slash xs of [] \<Rightarrow> [[x]] | s # ss \<Rightarrow> (x # s) # ss))"

fun normalize_segs :: "string list \<Rightarrow> string list \<Rightarrow> string list" where
  "normalize_segs stack [] = stack"
| "normalize_segs stack (seg # segs) =
     (if seg = [] \<or> seg = ''.'' then normalize_segs stack segs
      else if seg = ''..'' then normalize_segs (butlast stack) segs
      else normalize_segs (stack @ [seg]) segs)"

definition resolve :: "string list \<Rightarrow> string \<Rightarrow> string list" where
  "resolve cwd p =
     (if startsWith p ''/'' then normalize_segs [] (split_slash p)
      else normalize_segs cwd (split_slash p))"

fun strip_common :: "string list \<Rightarrow> string list \<Rightarrow> string list \<times> string list" where
  "strip_common (a # as) (b # bs) =
     (if a = b then strip_common as bs else (a # as, b # bs))"
| "strip_common as bs = (as, bs)"

definition relative :: "string list \<Rightarrow> string \<Rightarrow> string \<Rightarrow> string" where
  "relative cwd from to =
     (case strip_common (resolve cwd from) (resolve cwd to) of
        (f, t) \<Rightarrow> join ''/'' (replicate (length f) ''..'' @ t))"

subsection \<open>Configuration\<close>

text \<open>The fields of \<^verbatim>\<open>styleConfig\<close> that the file reads: \<^verbatim>\<open>css.entry\<close>, \<^verbatim>\<open>css.watch\<close>,
  \<^verbatim>\<open>css.output.es\<close>, \<^verbatim>\<open>css.output.cjs\<close>, \<^verbatim>\<open>css.output.dist\<close>, \<^verbatim>\<open>asset.entry\<close> and
  \<^verbatim>\<open>asset.output\<close>. The two module-format directories may be left out.\<close>

record style_config =
  css_entry :: "string list"
  css_watch :: "string list"
  output_es :: "string option"
  output_cjs :: "string option"
  dist_path :: string
  rawFileName :: string
  cssFileName :: string
  asset_entry :: "string list"
  asset_output :: string

type_synonym files = "string \<rightharpoonup> string"

subsection \<open>distLess: the import index\<close>

definition esEntry :: "style_config \<Rightarrow> string \<Rightarrow> string" where
  "esEntry cfg entry = js_str (output_es cfg) @ slice entry (indexOf entry CHR ''/'')"

definition import_text :: "style_config \<Rightarrow> string list \<Rightarrow> string \<Rightarrow> string" where
  "import_text cfg cwd entry =
     ''@import '' @ [CHR 0x22] @ relative cwd (dist_path cfg) (esEntry cfg entry)
       @ [CHR 0x22] @ '';''"

definition is_style :: "style_config \<Rightarrow> string \<Rightarrow> bool" where
  "is_style cfg entry = startsWith (esEntry cfg entry) (js_str (output_es cfg) @ ''/style'')"

text \<open>One round of the \<^verbatim>\<open>entries.forEach\<close> loop: \<^verbatim>\<open>unshift\<close> for a style entry,
  \<^verbatim>\<open>push\<close> for any other.\<close>

definition distLess_step :: "style_config \<Rightarrow> string list \<Rightarrow> string list \<Rightarrow> string \<Rightarrow> string list" where
  "distLess_step cfg cwd texts entry =
     (if is_style cfg entry then import_text cfg cwd entry # texts
      else texts @ [import_text cfg cwd entry])"

definition distLess_texts :: "style_config \<Rightarrow> string list \<Rightarrow> string list \<Rightarrow> string list" where
  "distLess_texts cfg cwd entries = foldl (distLess_step cfg cwd) [] entries"

definition index_path :: "style_config \<Rightarrow> string" where
  "index_path cfg = dist_path cfg @ ''/'' @ rawFileName cfg"

text \<open>The entries are the matches of every entry glob, in glob order; \<open>glob\<close> stands for
  \<^verbatim>\<open>glob.sync\<close>, the enumeration of the file system.\<close>

definition glob_entries :: "(string \<Rightarrow> string list) \<Rightarrow> style_config \<Rightarrow> string list" where
  "glob_entries glob cfg = foldl (\<lambda>entries e. entries @ glob e) [] (css_entry cfg)"

definition distLess :: "style_config \<Rightarrow> string list \<Rightarrow> (string \<Rightarrow> string list) \<Rightarrow> files \<Rightarrow> files" where
  "distLess cfg cwd glob fs =
     (let entries = glob_entries glob cfg
      in if entries \<noteq> []
         then fs(index_path cfg \<mapsto> join [CHR 0x0A] (distLess_texts cfg cwd entries))
         else fs)"

subsection \<open>Streams of files\<close>

text \<open>A file travelling through a gulp pipeline: its path relative to the base of the
  stream and its contents. A plugin transforms one file at a time and may fail; the
  pipeline hands on the files that came before the failure.\<close>

record vinyl =
  v_relative :: string
  v_contents :: string

record stream =
  items :: "vinyl list"
  failed :: bool

fun through_items :: "(vinyl \<Rightarrow> vinyl option) \<Rightarrow> vinyl list \<Rightarrow> vinyl list \<times> bool" where
  "through_items f [] = ([], False)"
| "through_items f (v # vs) =
     (case f v of
        None \<Rightarrow> ([], True)
      | Some w \<Rightarrow> (case through_items f vs of (ws, e) \<Rightarrow> (w # ws, e)))"

definition pipe :: "stream \<Rightarrow> (vinyl \<Rightarrow> vinyl option) \<Rightarrow> stream" where
  "pipe s f = (case through_items f (items s) of (ws, e) \<Rightarrow> \<lparr>items = ws, failed = (failed s \<or> e)\<rparr>)"

text \<open>\<^verbatim>\<open>gulp.src\<close> on one plain path: with \<^verbatim>\<open>allowEmpty\<close> a missing file is an empty
  stream, without it an error.\<close>

definition gulp_src_file :: "bool \<Rightarrow> files \<Rightarrow> string \<Rightarrow> string \<Rightarrow> stream" where
  "gulp_src_file allowEmpty fs path name =
     (case fs path of
        None \<Rightarrow> \<lparr>items = [], failed = (\<not> allowEmpty)\<rparr>
      | Some c \<Rightarrow> \<lparr>items = [\<lparr>v_relative = name, v_contents = c\<rparr>], failed = False\<rparr>)"

text \<open>\<^verbatim>\<open>gulp.dest(dir)\<close> writes every file of the stream below \<open>dir\<close> and hands the files
  on. The writes are kept as a list of path and contents, in stream order.\<close>

definition dest_writes :: "string \<Rightarrow> stream \<Rightarrow> (string \<times> string) list" where
  "dest_writes dir s = map (\<lambda>v. (dir @ ''/'' @ v_relative v, v_contents v)) (items s)"

definition gulp_dest :: "stream \<times> (string \<times> string) list \<Rightarrow> string \<Rightarrow> stream \<times> (string \<times> string) list" where
  "gulp_dest sw dir = (case sw of (s, writes) \<Rightarrow> (s, writes @ dest_writes dir s))"

definition apply_writes :: "files \<Rightarrow> (string \<times> string) list \<Rightarrow> files" where
  "apply_writes fs ws = foldl (\<lambda>m pc. m(fst pc \<mapsto> snd pc)) fs ws"

text \<open>\<^verbatim>\<open>[cssConfig.output.es, cssConfig.output.cjs].filter((path) => !!path)\<close>: a directory
  counts when it is defined and not the empty string.\<close>

definition truthy :: "string option \<Rightarrow> bool" where
  "truthy v = (case v of None \<Rightarrow> False | Some s \<Rightarrow> s \<noteq> [])"

definition destDirs :: "style_config \<Rightarrow> string list" where
  "destDirs cfg = map js_str (filter truthy [output_es cfg, output_cjs cfg])"

subsection \<open>compileLess\<close>

text \<open>\<open>src\<close> stands for \<^verbatim>\<open>gulp.src(cssConfig.entry, { allowEmpty: true })\<close>, the files
  matched by the entry globs; \<open>compiler\<close> and \<open>cleanCSS\<close> are the two plugins. The result is
  the list of writes and the stream that the function returns (\<^verbatim>\<open>Promise.resolve(null)\<close>
  when no directory is configured, shown as \<open>None\<close>). The line that the error listener
  prints is left out.\<close>

definition compileLess ::
  "(string list \<Rightarrow> vinyl list) \<Rightarrow> (vinyl \<Rightarrow> vinyl option) \<Rightarrow> (vinyl \<Rightarrow> vinyl option) \<Rightarrow>
   style_config \<Rightarrow> (string \<times> string) list \<times> stream option" where
  "compileLess src compiler cleanCSS cfg =
     (if destDirs cfg \<noteq> []
      then (let s = pipe (pipe \<lparr>items = src (css_entry cfg), failed = False\<rparr> compiler) cleanCSS
            in case foldl gulp_dest (s, []) (destDirs cfg) of (s', writes) \<Rightarrow> (writes, Some s'))
      else ([], None))"

subsection \<open>distCss: the distributable artifact\<close>

text \<open>
  The search pattern is \<^verbatim>\<open>new RegExp(`(\.{2}\/)+${cssConfig.output.es}`, 'g')\<close>. Inside the
  template literal \<^verbatim>\<open>\.\<close> is the character \<^verbatim>\<open>.\<close> and \<^verbatim>\<open>\/\<close> is \<^verbatim>\<open>/\<close>, so the pattern
  source is \<^verbatim>\<open>(.{2}/)+\<close> followed by the directory name: one or more groups of two
  characters other than line terminators and a slash, then the name. The name is matched
  letter by letter, which is what the pattern does for a name without pattern
  metacharacters (\<open>plain_name\<close>); the replacement text is inserted as it is, which is what
  \<^verbatim>\<open>replace\<close> does for a text without \<^verbatim>\<open>$\<close>.
\<close>

definition dot_char :: "char \<Rightarrow> bool" where
  "dot_char c = (c \<noteq> CHR 0x0A \<and> c \<noteq> CHR 0x0D)"

definition plain_chars :: string where
  "plain_chars = ''abcdefghijklmnopqrstuvwxyzABCDEFGHIJKLMNOPQRSTUVWXYZ0123456789_-''"

definition plain_name :: "string \<Rightarrow> bool" where
  "plain_name name = (name \<noteq> [] \<and> list_all (\<lambda>c. c \<in> set plain_chars) name)"

text \<open>After the first group the greedy \<^verbatim>\<open>+\<close> tries one more group before it tries the
  name. The result is the length of what is matched from here on.\<close>

fun match_more :: "string \<Rightarrow> string \<Rightarrow> nat option" where
  "match_more name (a # b # c # r) =
     (case (if dot_char a \<and> dot_char b \<and> c = CHR ''/'' then match_more name r else None) of
        Some n \<Rightarrow> Some (3 + n)
      | None \<Rightarrow> if startsWith (a # b # c # r) name then Some (length name) else None)"
| "match_more name s = (if startsWith s name then Some (length name) else None)"

definition match_at :: "string \<Rightarrow> string \<Rightarrow> nat option" where
  "match_at name s =
     (case s of
        a # b # c # r \<Rightarrow>
          if dot_char a \<and> dot_char b \<and> c = CHR ''/''
          then map_option (\<lambda>n. 3 + n) (match_more name r) else None
      | _ \<Rightarrow> None)"

text \<open>The global replacement: scan from the left, replace a match and go on behind it.\<close>

function replace_all :: "string \<Rightarrow> string \<Rightarrow> string \<Rightarrow> string" where
  "replace_all name rep [] = []"
| "replace_all name rep (c # s) =
     (case match_at name (c # s) of
        Some n \<Rightarrow> rep @ replace_all name rep (drop n (c # s))
      | None \<Rightarrow> c # replace_all name rep s)"
  by pat_completeness auto
termination
  by (relation "measure (\<lambda>(name, rep, s). length s)")
     (auto simp: match_at_def split: list.splits if_splits)

definition needCleanCss :: "bool \<Rightarrow> string option \<Rightarrow> bool" where
  "needCleanCss isDev mode = (\<not> isDev \<and> (\<not> truthy mode \<or> mode = Some ''production''))"

definition replace_plugin :: "string \<Rightarrow> string \<Rightarrow> vinyl \<Rightarrow> vinyl option" where
  "replace_plugin name rep v = Some (v\<lparr>v_contents := replace_all name rep (v_contents v)\<rparr>)"

definition rename :: "string \<Rightarrow> vinyl \<Rightarrow> vinyl option" where
  "rename name v = Some (v\<lparr>v_relative := name\<rparr>)"

definition gulpIf :: "bool \<Rightarrow> (vinyl \<Rightarrow> vinyl option) \<Rightarrow> vinyl \<Rightarrow> vinyl option" where
  "gulpIf cond plugin = (if cond then plugin else Some)"

text \<open>\<^verbatim>\<open>notifyLessCompileResult\<close>: in development mode a compile error is printed and the
  stream is ended by hand, so what follows sees a stream that ended.\<close>

datatype log_entry = PrintInfo string | PrintError string

definition notifyLessCompileResult :: "stream \<Rightarrow> stream \<times> log_entry list" where
  "notifyLessCompileResult s =
     (if failed s then (s\<lparr>failed := False\<rparr>, [PrintError ''Failed to update style''])
      else (s, [PrintInfo ''Style updated'']))"

definition distCss_stream ::
  "(vinyl \<Rightarrow> vinyl option) \<Rightarrow> (vinyl \<Rightarrow> vinyl option) \<Rightarrow> string option \<Rightarrow> string list \<Rightarrow>
   style_config \<Rightarrow> bool \<Rightarrow> files \<Rightarrow> stream" where
  "distCss_stream compiler cleanCSS mode cwd cfg isDev fs =
     (let s0 = pipe (gulp_src_file True fs (index_path cfg) (rawFileName cfg)) compiler;
          s1 = (if isDev then fst (notifyLessCompileResult s0) else s0);
          s2 = pipe s1 (replace_plugin (js_str (output_es cfg))
                          (relative cwd (dist_path cfg) (asset_output cfg)));
          s3 = pipe s2 (gulpIf (needCleanCss isDev mode) cleanCSS)
      in pipe s3 (rename (cssFileName cfg)))"

text \<open>What \<^verbatim>\<open>distCss\<close> leaves behind: the files after the write into the distributable
  directory, and the stream it returns. The lines that the listeners print are left out.\<close>

definition distCss ::
  "(vinyl \<Rightarrow> vinyl option) \<Rightarrow> (vinyl \<Rightarrow> vinyl option) \<Rightarrow> string option \<Rightarrow> string list \<Rightarrow>
   style_config \<Rightarrow> bool \<Rightarrow> files \<Rightarrow> files \<times> stream" where
  "distCss compiler cleanCSS mode cwd cfg isDev fs =
     (let s = distCss_stream compiler cleanCSS mode cwd cfg isDev fs
      in (apply_writes fs (dest_writes (dist_path cfg) s), s))"

subsection \<open>copyFileWatched\<close>

text \<open>
  The copied files are not tracked. The promise is resolved by the \<^verbatim>\<open>end\<close> event and rejected,
  after a printed line, by the \<^verbatim>\<open>error\<close> event of one stream only: the last
  \<^verbatim>\<open>gulp.dest\<close> of the chain, since \<^verbatim>\<open>pipe\<close> does not forward errors. \<open>course\<close> says how
  the copy goes: to its end, or with an error of that last stream, or with an error of a
  stream before it, which nothing in the function listens to. A merge of no streams at all
  (an empty \<^verbatim>\<open>cssConfig.watch\<close>) has nothing that ends it. The result is what is printed and
  the state of the returned promise.\<close>

datatype promise = Resolved | Rejected | Unsettled

datatype copy_course = CopyEnds | LastDestFails | EarlierStreamFails

definition copyFileWatched :: "copy_course \<Rightarrow> style_config \<Rightarrow> log_entry list \<times> promise" where
  "copyFileWatched course cfg =
     (if destDirs cfg \<noteq> []
      then (if css_watch cfg = [] then ([], Unsettled)
            else case course of
                   CopyEnds \<Rightarrow> ([], Resolved)
                 | LastDestFails \<Rightarrow>
                     ([PrintError ''Failed to build css, error in copying files''], Rejected)
                 | EarlierStreamFails \<Rightarrow> ([], Unsettled))
      else ([], Resolved))"

subsection \<open>The task graphs\<close>

text \<open>The operations that \<^verbatim>\<open>watch\<close> and \<^verbatim>\<open>build\<close> hand to \<^verbatim>\<open>gulp.series\<close> and
  \<^verbatim>\<open>gulp.parallel\<close>. \<open>DistCssDropped\<close> is the arrow function \<^verbatim>\<open>() => { distCss(true); }\<close>,
  \<open>ResolveBuild\<close> is \<^verbatim>\<open>() => resolve(null)\<close>.\<close>

datatype leaf =
  CopyAsset | CopyFileWatched | CompileLess | HandleStyleJSEntry
  | DistLess | DistCss bool | DistCssDropped | ResolveBuild

datatype task = Leaf leaf | Series "task list" | Parallel "task list"

definition fastBuild :: task where
  "fastBuild =
     Parallel [Leaf CopyAsset,
               Series [Leaf CopyFileWatched, Leaf DistLess, Leaf DistCssDropped]]"

definition build_graph :: task where
  "build_graph =
     Series [Parallel [Leaf CopyAsset, Leaf CopyFileWatched, Leaf CompileLess, Leaf HandleStyleJSEntry],
             Parallel [Leaf DistLess, Leaf (DistCss False)],
             Parallel [Leaf ResolveBuild]]"

text \<open>What an operation gives back to the scheduler when it is invoked: it has called the
  callback, or it returns a stream or a promise, or it returns nothing.\<close>

datatype handle = CallbackCalled | ReturnedStream bool | ReturnedPromise promise | ReturnedNothing

text \<open>What is outside the file: whether the streams of \<^verbatim>\<open>copyAsset\<close>, \<^verbatim>\<open>compileLess\<close>
  and \<^verbatim>\<open>distCss\<close> emit an error, how the copy of \<^verbatim>\<open>copyFileWatched\<close> goes, and what the
  imported \<^verbatim>\<open>handleStyleJSEntry\<close> gives back.\<close>

record faults =
  copyAsset_error :: bool
  copyFileWatched_course :: copy_course
  compileLess_error :: bool
  distCss_error :: bool
  handleStyleJSEntry_handle :: handle

definition leaf_handle :: "style_config \<Rightarrow> faults \<Rightarrow> leaf \<Rightarrow> handle" where
  "leaf_handle cfg f a =
     (case a of
        CopyAsset \<Rightarrow> ReturnedStream (copyAsset_error f)
      | CopyFileWatched \<Rightarrow> ReturnedPromise (snd (copyFileWatched (copyFileWatched_course f) cfg))
      | CompileLess \<Rightarrow>
          (if destDirs cfg \<noteq> [] then ReturnedStream (compileLess_error f)
           else ReturnedPromise Resolved)
      | HandleStyleJSEntry \<Rightarrow> handleStyleJSEntry_handle f
      | DistLess \<Rightarrow> CallbackCalled
      | DistCss isDev \<Rightarrow> ReturnedStream (distCss_error f)
      | DistCssDropped \<Rightarrow> ReturnedNothing
      | ResolveBuild \<Rightarrow> ReturnedNothing)"

subsection \<open>The task scheduler\<close>

text \<open>
  The scheduler behind \<^verbatim>\<open>gulp.series\<close> and \<^verbatim>\<open>gulp.parallel\<close> is not among the source
  files; the definitions of this subsection follow what the specification says of it.
\<close>

datatype signal = Completed | Failed | Pending

text \<open>Modelled from the spec: the scheduler's reading of what an operation gives back.
  It turns the three completion conventions (callback, end of a stream, resolution of a
  future) into one signal; an operation that uses none of them gives no signal.\<close>

definition normalize :: "handle \<Rightarrow> signal" where
  "normalize h =
     (case h of
        CallbackCalled \<Rightarrow> Completed
      | ReturnedStream err \<Rightarrow> (if err then Failed else Completed)
      | ReturnedPromise p \<Rightarrow> (case p of Resolved \<Rightarrow> Completed | Rejected \<Rightarrow> Failed | Unsettled \<Rightarrow> Pending)
      | ReturnedNothing \<Rightarrow> Pending)"

text \<open>Modelled from the spec: the signal of a parallel group of the scheduler. The group
  has completed when every child has completed, and a failed child makes it fail.\<close>

definition both :: "signal \<Rightarrow> signal \<Rightarrow> signal" where
  "both s t =
     (if s = Pending \<or> t = Pending then Pending
      else if s = Failed \<or> t = Failed then Failed
      else Completed)"

text \<open>Modelled from the spec: the scheduler's run of a task graph. A series starts a
  child only after the child before it has signalled completion, and a child that fails
  or gives no signal stops the children that remain; a parallel group starts all its
  children. The result is the operations that get started, in the order of the graph,
  and the signal of the whole graph.\<close>

fun run :: "style_config \<Rightarrow> faults \<Rightarrow> task \<Rightarrow> leaf list \<times> signal"
  and run_series :: "style_config \<Rightarrow> faults \<Rightarrow> task list \<Rightarrow> leaf list \<times> signal"
  and run_parallel :: "style_config \<Rightarrow> faults \<Rightarrow> task list \<Rightarrow> leaf list \<times> signal" where
  "run cfg f (Leaf a) = ([a], normalize (leaf_handle cfg f a))"
| "run cfg f (Series ts) = run_series cfg f ts"
| "run cfg f (Parallel ts) = run_parallel cfg f ts"
| "run_series cfg f [] = ([], Completed)"
| "run_series cfg f (t # ts) =
     (case run cfg f t of
        (ls, s) \<Rightarrow>
          if s = Completed
          then (case run_series cfg f ts of (ls', s') \<Rightarrow> (ls @ ls', s'))
          else (ls, s))"
| "run_parallel cfg f [] = ([], Completed)"
| "run_parallel cfg f (t # ts) =
     (case run cfg f t of
        (ls, s) \<Rightarrow> (case run_parallel cfg f ts of (ls', s') \<Rightarrow> (ls @ ls', both s s')))"

text \<open>The events of a run. An operation is invoked, \<^verbatim>\<open>distLess\<close> may write the index
  file, and an operation that gives a signal does so as its last event. The dropped
  \<^verbatim>\<open>distCss(true)\<close> is invoked inside its arrow function.\<close>

datatype event = Invoke leaf | WriteIndex | Signal leaf

definition leaf_events :: "style_config \<Rightarrow> (string \<Rightarrow> string list) \<Rightarrow> faults \<Rightarrow> leaf \<Rightarrow> event list" where
  "leaf_events cfg glob f a =
     (case a of
        DistLess \<Rightarrow>
          [Invoke DistLess] @ (if glob_entries glob cfg \<noteq> [] then [WriteIndex] else [])
            @ [Signal DistLess]
      | DistCssDropped \<Rightarrow> [Invoke DistCssDropped, Invoke (DistCss True)]
      | _ \<Rightarrow> [Invoke a] @ (if normalize (leaf_handle cfg f a) = Pending then [] else [Signal a]))"

text \<open>Modelled from the spec: the scheduler's runs of a task graph as sequences of
  events. The children of a series come one after the other, up to the first that does
  not complete; the children of a parallel group come in any interleaving.\<close>

fun traces :: "style_config \<Rightarrow> (string \<Rightarrow> string list) \<Rightarrow> faults \<Rightarrow> task \<Rightarrow> event list set"
  and traces_series :: "style_config \<Rightarrow> (string \<Rightarrow> string list) \<Rightarrow> faults \<Rightarrow> task list \<Rightarrow> event list set"
  and traces_parallel :: "style_config \<Rightarrow> (string \<Rightarrow> string list) \<Rightarrow> faults \<Rightarrow> task list \<Rightarrow> event list set" where
  "traces cfg glob f (Leaf a) = {leaf_events cfg glob f a}"
| "traces cfg glob f (Series ts) = traces_series cfg glob f ts"
| "traces cfg glob f (Parallel ts) = traces_parallel cfg glob f ts"
| "traces_series cfg glob f [] = {[]}"
| "traces_series cfg glob f (t # ts) =
     (if snd (run cfg f t) = Completed
      then (\<Union>x \<in> traces cfg glob f t. (\<lambda>y. x @ y) ` traces_series cfg glob f ts)
      else traces cfg glob f t)"
| "traces_parallel cfg glob f [] = {[]}"
| "traces_parallel cfg glob f (t # ts) =
     (\<Union>x \<in> traces cfg glob f t. \<Union>y \<in> traces_parallel cfg glob f ts. shuffles x y)"

text \<open>The first \<open>b\<close> of a run, if there is one, comes after an \<open>a\<close>.\<close>

definition precedes :: "event \<Rightarrow> event \<Rightarrow> event list \<Rightarrow> bool" where
  "precedes a b tr = (b \<in> set tr \<longrightarrow> a \<in> set (takeWhile (\<lambda>e. e \<noteq> b) tr))"

text \<open>Whether two operations are ordered by a series: they lie in different children of
  one series, the first in the earlier child.\<close>

fun leaves :: "task \<Rightarrow> leaf list" and leaves_list :: "task list \<Rightarrow> leaf list" where
  "leaves (Leaf a) = [a]"
| "leaves (Series ts) = leaves_list ts"
| "leaves (Parallel ts) = leaves_list ts"
| "leaves_list [] = []"
| "leaves_list (t # ts) = leaves t @ leaves_list ts"

fun in_series :: "leaf \<Rightarrow> leaf \<Rightarrow> task \<Rightarrow> bool"
  and in_series_list :: "leaf \<Rightarrow> leaf \<Rightarrow> bool \<Rightarrow> task list \<Rightarrow> bool" where
  "in_series a b (Leaf c) = False"
| "in_series a b (Series ts) = in_series_list a b True ts"
| "in_series a b (Parallel ts) = in_series_list a b False ts"
| "in_series_list a b ordered [] = False"
| "in_series_list a b ordered (t # ts) =
     (in_series a b t \<or> (ordered \<and> a \<in> set (leaves t) \<and> b \<in> set (leaves_list ts))
      \<or> in_series_list a b ordered ts)"

subsection \<open>build\<close>

text \<open>The promise of \<^verbatim>\<open>build\<close> has no way to be rejected, and it is resolved by the last
  operation of the series when that operation is started.\<close>

definition build :: "style_config \<Rightarrow> faults \<Rightarrow> promise" where
  "build cfg f = (if ResolveBuild \<in> set (fst (run cfg f build_graph)) then Resolved else Unsettled)"

subsection \<open>watch\<close>

text \<open>\<^verbatim>\<open>String.prototype.replace\<close> with a string pattern: the first occurrence only.\<close>

fun replace_first :: "string \<Rightarrow> string \<Rightarrow> string \<Rightarrow> string" where
  "replace_first [] pat rep = (if pat = [] then rep else [])"
| "replace_first (c # s) pat rep =
     (if startsWith (c # s) pat then rep @ drop (length pat) (c # s)
      else c # replace_first s pat rep)"

text \<open>The state of a watch session: what \<^verbatim>\<open>print.info\<close> has printed, how often the
  fast build has been invoked, and the world that the fast build works on. An invocation
  of the fast build changes the world and may raise.\<close>

record 'w session =
  printed :: "string list"
  invoked :: nat
  world :: 'w

definition event_line :: "string \<Rightarrow> string \<times> string \<Rightarrow> string" where
  "event_line cwd ev = ''['' @ fst ev @ ''] '' @ replace_first (snd ev) cwd []"

text \<open>The listener of \<^verbatim>\<open>watcher.on('all', ...)\<close>. The first component of the result is
  the exception that leaves the listener, if any.\<close>

definition on_all ::
  "('w \<Rightarrow> 'x option \<times> 'w) \<Rightarrow> string \<Rightarrow> 'w session \<Rightarrow> string \<times> string \<Rightarrow> 'x option \<times> 'w session" where
  "on_all fastBuild_run cwd st ev =
     (let st1 = st\<lparr>printed := printed st @ [event_line cwd ev]\<rparr>
      in case fastBuild_run (world st1) of
           (None, w) \<Rightarrow> (None, st1\<lparr>invoked := Suc (invoked st1), world := w\<rparr>)
         | (Some x, w) \<Rightarrow> (None, st1\<lparr>invoked := Suc (invoked st1), world := w\<rparr>))"

text \<open>The events of a session one after the other; an exception that left the listener
  would end the session.\<close>

fun deliver ::
  "('w \<Rightarrow> 'x option \<times> 'w) \<Rightarrow> string \<Rightarrow> 'w session \<Rightarrow> (string \<times> string) list \<Rightarrow> 'x option \<times> 'w session" where
  "deliver fastBuild_run cwd st [] = (None, st)"
| "deliver fastBuild_run cwd st (ev # evs) =
     (case on_all fastBuild_run cwd st ev of
        (None, st') \<Rightarrow> deliver fastBuild_run cwd st' evs
      | (Some x, st') \<Rightarrow> (Some x, st'))"

text \<open>\<^verbatim>\<open>watch\<close>: the first build is not guarded; the subscription ignores the files that
  are there at the start.\<close>

definition watch :: "('w \<Rightarrow> 'x option \<times> 'w) \<Rightarrow> 'w \<Rightarrow> 'x option \<times> 'w session" where
  "watch fastBuild_run w =
     (case fastBuild_run w of (x, w') \<Rightarrow> (x, \<lparr>printed = [], invoked = 1, world = w'\<rparr>))"

subsection \<open>A sample configuration\<close>

text \<open>Components below \<^verbatim>\<open>components\<close>, the module formats in \<^verbatim>\<open>es\<close> and \<^verbatim>\<open>lib\<close>, the
  distributable in \<^verbatim>\<open>dist\<close> next to them.\<close>

definition scenario_config :: style_config where
  "scenario_config =
     \<lparr>css_entry = [''components/**/index.less''], css_watch = [''components/**/*.less''],
      output_es = Some ''es'', output_cjs = Some ''lib'',
      dist_path = ''dist'', rawFileName = ''index.less'', cssFileName = ''index.css'',
      asset_entry = [''components/**/*.png''], asset_output = ''dist/asset''\<rparr>"

text \<open>Nothing fails; and the same with a copy of \<^verbatim>\<open>copyFileWatched\<close> whose last
  \<^verbatim>\<open>gulp.dest\<close> emits an error.\<close>

definition no_faults :: faults where
  "no_faults =
     \<lparr>copyAsset_error = False, copyFileWatched_course = CopyEnds, compileLess_error = False,
      distCss_error = False, handleStyleJSEntry_handle = CallbackCalled\<rparr>"

definition copy_fault :: faults where
  "copy_fault = no_faults\<lparr>copyFileWatched_course := LastDestFails\<rparr>"

text \<open>A run of \<open>k\<close> parent-directory segments.\<close>

abbreviation dots :: "nat \<Rightarrow> string" where
  "dots k \<equiv> concat (replicate k ''../'')"

subsection \<open>Texts with references to the module directory\<close>

text \<open>
  The texts that the path-rewrite rule speaks of, in its own words and not taken from the
  code: a reference is a run of one or more parent-directory segments immediately followed
  by the name of the module directory. \<open>references\<close> puts a text together from references,
  each with the stretch of text that comes before it; \<open>(s, k)\<close> stands for the stretch
  \<open>s\<close> and a reference with \<open>k + 1\<close> segments behind it. A stretch is any text that does
  not hold a slash followed by the name and does not end with a slash; the name itself
  may occur in it. \<open>rewritten\<close> is the text with every reference replaced and every
  stretch kept.
\<close>

definition stretch :: "string \<Rightarrow> string \<Rightarrow> bool" where
  "stretch name s = (\<not> sublist (CHR ''/'' # name) s \<and> (s = [] \<or> last s \<noteq> CHR ''/''))"

fun references :: "string \<Rightarrow> (string \<times> nat) list \<Rightarrow> string" where
  "references name [] = []"
| "references name (r # rs) = fst r @ dots (Suc (snd r)) @ name @ references name rs"

fun rewritten :: "string \<Rightarrow> (string \<times> nat) list \<Rightarrow> string" where
  "rewritten rep [] = []"
| "rewritten rep (r # rs) = fst r @ rep @ rewritten rep rs"

section \<open>Properties\<close>

subsection \<open>The watch listener\<close>

lemma on_all_None: "fst (on_all fb cwd st ev) = None"
  by (simp add: on_all_def Let_def split: prod.split option.split)

lemma on_all_printed: "printed (snd (on_all fb cwd st ev)) = printed st @ [event_line cwd ev]"
  by (simp add: on_all_def Let_def split: prod.split option.split)

lemma on_all_invoked: "invoked (snd (on_all fb cwd st ev)) = Suc (invoked st)"
  by (simp add: on_all_def Let_def split: prod.split option.split)

lemma on_all_world: "world (snd (on_all fb cwd st ev)) = snd (fb (world st))"
  by (simp add: on_all_def Let_def split: prod.split option.split)

lemma deliver_Cons: "deliver fb cwd st (ev # evs) = deliver fb cwd (snd (on_all fb cwd st ev)) evs"
  using on_all_None[of fb cwd st ev]
  by (cases "on_all fb cwd st ev") (auto split: option.split)

text \<open>
  C1. Whatever the fast build does when it is invoked, and however often it raises, no
  exception leaves the listener: after any sequence of change events the session is still
  there, one line \<^verbatim>\<open>[<eventKind>] <path>\<close> has been printed for every event, in order, where
  the path is the full path with the first occurrence of the working directory removed,
  and the fast build has been run once for every event, each run on what the run before
  left behind, whether that run raised or not.
\<close>

theorem watch_survives_every_rebuild:
  "fst (deliver fb cwd st evs) = None \<and>
   printed (snd (deliver fb cwd st evs)) = printed st @ map (event_line cwd) evs \<and>
   invoked (snd (deliver fb cwd st evs)) = invoked st + length evs \<and>
   world (snd (deliver fb cwd st evs)) = fold (\<lambda>ev w. snd (fb w)) evs (world st)"
proof (induction evs arbitrary: st)
  case Nil
  show ?case by simp
next
  case (Cons ev evs)
  show ?case
    unfolding deliver_Cons
    using Cons.IH[of "snd (on_all fb cwd st ev)"]
    by (simp add: on_all_printed on_all_invoked on_all_world)
qed

text \<open>A session whose first build goes through and whose rebuilds raise every time, with
  two events: both rebuilds have run, the second on what the first left behind.\<close>

theorem watch_survives_every_rebuild_witness:
  "watch (\<lambda>w::nat. (if w = 0 then None else Some ''boom'', Suc w)) 0
     = (None, \<lparr>printed = [], invoked = 1, world = 1\<rparr>) \<and>
   fst ((\<lambda>w::nat. (if w = 0 then None else Some ''boom'', Suc w)) 1) = Some ''boom'' \<and>
   fst ((\<lambda>w::nat. (if w = 0 then None else Some ''boom'', Suc w)) 2) = Some ''boom'' \<and>
   deliver (\<lambda>w::nat. (if w = 0 then None else Some ''boom'', Suc w)) ''/repo''
         \<lparr>printed = [], invoked = 1, world = 1\<rparr>
         [(''change'', ''/repo/components/a.less''), (''unlink'', ''/repo/components/b.less'')]
     = (None, \<lparr>printed = [''[change] /components/a.less'', ''[unlink] /components/b.less''],
               invoked = 3, world = 3\<rparr>)"
  using watch_survives_every_rebuild[of "\<lambda>w::nat. (if w = 0 then None else Some ''boom'', Suc w)"
         "''/repo''" "\<lparr>printed = [], invoked = 1, world = 1\<rparr>"
         "[(''change'', ''/repo/components/a.less''), (''unlink'', ''/repo/components/b.less'')]"]
  by (simp add: event_line_def startsWith_def watch_def on_all_def Let_def)

subsection \<open>The import index\<close>

lemma foldl_distLess_step:
  "foldl (distLess_step cfg cwd) acc entries =
     rev (map (import_text cfg cwd) (filter (is_style cfg) entries)) @ acc @
     map (import_text cfg cwd) (filter (\<lambda>e. \<not> is_style cfg e) entries)"
  by (induction entries arbitrary: acc) (simp_all add: distLess_step_def)

text \<open>
  C2. For every list of entries, in whatever order the file system enumerates them, the
  directives of the index are those of the style entries followed by those of all other
  entries. Each style directive is put in front of what is there, so the style
  directives stand in the reverse of their match order; the other directives stand in
  match order. When the globs match anything, these directives, joined by line feeds,
  are what \<^verbatim>\<open>distLess\<close> writes to the index file.
\<close>

theorem index_style_directives_first:
  "distLess_texts cfg cwd entries =
     rev (map (import_text cfg cwd) (filter (is_style cfg) entries)) @
     map (import_text cfg cwd) (filter (\<lambda>e. \<not> is_style cfg e) entries) \<and>
   (glob_entries glob cfg \<noteq> [] \<longrightarrow>
      distLess cfg cwd glob fs (index_path cfg) =
        Some (join [CHR 0x0A]
          (rev (map (import_text cfg cwd) (filter (is_style cfg) (glob_entries glob cfg))) @
           map (import_text cfg cwd) (filter (\<lambda>e. \<not> is_style cfg e) (glob_entries glob cfg)))))"
  by (simp add: distLess_texts_def foldl_distLess_step distLess_def Let_def)

text \<open>Four matches, the second and the fourth below \<^verbatim>\<open>components/style\<close>.\<close>

theorem index_style_directives_first_witness:
  "glob_entries (\<lambda>p. [''components/b/index.less'', ''components/style/index.less'',
      ''components/a/index.less'', ''components/style/x.less'']) scenario_config \<noteq> [] \<and>
   distLess scenario_config [''home'', ''repo'']
     (\<lambda>p. [''components/b/index.less'', ''components/style/index.less'',
      ''components/a/index.less'', ''components/style/x.less'']) Map.empty (index_path scenario_config) =
   Some (''@import '' @ [CHR 0x22] @ ''../es/style/x.less'' @ [CHR 0x22] @ '';'' @ [CHR 0x0A] @
         ''@import '' @ [CHR 0x22] @ ''../es/style/index.less'' @ [CHR 0x22] @ '';'' @ [CHR 0x0A] @
         ''@import '' @ [CHR 0x22] @ ''../es/b/index.less'' @ [CHR 0x22] @ '';'' @ [CHR 0x0A] @
         ''@import '' @ [CHR 0x22] @ ''../es/a/index.less'' @ [CHR 0x22] @ '';'')"
proof -
  have g: "glob_entries (\<lambda>p. [''components/b/index.less'', ''components/style/index.less'',
      ''components/a/index.less'', ''components/style/x.less'']) scenario_config =
      [''components/b/index.less'', ''components/style/index.less'',
      ''components/a/index.less'', ''components/style/x.less'']"
    by (simp add: glob_entries_def scenario_config_def)
  show ?thesis
    using index_style_directives_first[of scenario_config "[''home'', ''repo'']" "[]"
      "\<lambda>p. [''components/b/index.less'', ''components/style/index.less'',
      ''components/a/index.less'', ''components/style/x.less'']" Map.empty]
    unfolding g
    by (simp add: is_style_def esEntry_def import_text_def
      scenario_config_def js_str_def slice_def startsWith_def relative_def resolve_def Let_def)
qed

lemma strip_common_append: "strip_common (c @ a) (c @ b) = strip_common a b"
  by (induction c) simp_all

lemma normalize_segs_plain:
  "\<forall>s\<in>set segs. s \<noteq> [] \<and> s \<noteq> ''.'' \<and> s \<noteq> ''..'' \<Longrightarrow> normalize_segs stack segs = stack @ segs"
  by (induction segs arbitrary: stack) simp_all

text \<open>
  C3, as the code has it. For the entries \<^verbatim>\<open>components/button/style/index.less\<close> and
  \<^verbatim>\<open>components/style/index.less\<close>, the module directory \<^verbatim>\<open>es\<close> and the distributable
  directory \<^verbatim>\<open>dist\<close>, in any working directory, the first directive imports
  \<^verbatim>\<open>../es/style/index.less\<close> and the second \<^verbatim>\<open>../es/button/style/index.less\<close>: the first
  directory of an entry is removed before the module directory is put in front.
\<close>

theorem scenario_index:
  "distLess_texts scenario_config cwd
     [''components/button/style/index.less'', ''components/style/index.less''] =
   [''@import '' @ [CHR 0x22] @ ''../es/style/index.less'' @ [CHR 0x22] @ '';'',
    ''@import '' @ [CHR 0x22] @ ''../es/button/style/index.less'' @ [CHR 0x22] @ '';'']"
  apply (simp add: distLess_texts_def distLess_step_def is_style_def esEntry_def import_text_def
      scenario_config_def js_str_def slice_def startsWith_def relative_def resolve_def Let_def)
  apply (simp add: normalize_segs_plain strip_common_append)
  done

theorem scenario_index_witness:
  "distLess_texts scenario_config [''home'', ''repo'']
     [''components/button/style/index.less'', ''components/style/index.less''] ! 1 =
   ''@import '' @ [CHR 0x22] @ ''../es/button/style/index.less'' @ [CHR 0x22] @ '';''"
  using scenario_index[of "[''home'', ''repo'']"] by simp

text \<open>C3, as the claim has it: the directives do not keep the directory \<^verbatim>\<open>components\<close>.\<close>

theorem scenario_index_counterexample:
  "\<not> (distLess_texts scenario_config [''home'', ''repo'']
        [''components/button/style/index.less'', ''components/style/index.less''] =
      [''@import '' @ [CHR 0x22] @ ''../es/components/style/index.less'' @ [CHR 0x22] @ '';'',
       ''@import '' @ [CHR 0x22] @ ''../es/components/button/style/index.less'' @ [CHR 0x22] @ '';''])"
  by (simp add: distLess_texts_def distLess_step_def is_style_def esEntry_def import_text_def
      scenario_config_def js_str_def slice_def startsWith_def relative_def resolve_def Let_def)

subsection \<open>The rewrite of asset paths\<close>

lemma drop_length_append: "drop (length A) (A @ B) = B"
  by simp

lemma take_length_append: "take (length A) (A @ B) = A"
  by simp

lemma slash_not_plain: "CHR ''/'' \<notin> set plain_chars"
  by (simp add: plain_chars_def)

lemma plain_nameD:
  assumes "plain_name name"
  shows "name \<noteq> []" and "CHR ''/'' \<notin> set name"
proof -
  show "name \<noteq> []" using assms by (simp add: plain_name_def)
  have "set name \<subseteq> set plain_chars"
    using assms by (auto simp: plain_name_def list_all_iff)
  then show "CHR ''/'' \<notin> set name" using slash_not_plain by blast
qed

lemma sublist_trans: "sublist xs ys \<Longrightarrow> sublist ys zs \<Longrightarrow> sublist xs zs"
  by (rule sublist_order.order_trans)

lemma startsWith_append: "startsWith s p \<longleftrightarrow> (\<exists>t. s = p @ t)"
  unfolding startsWith_def
  by (metis append_eq_conv_conj append_take_drop_id)

lemma startsWith_slash_name:
  assumes "startsWith r name"
  shows "sublist (CHR ''/'' # name) (CHR ''/'' # r)"
proof -
  from assms obtain t where "r = name @ t" by (auto simp: startsWith_append)
  then show ?thesis by (simp add: sublist_Cons_right)
qed

text \<open>A match ends with the name, and a slash stands before the name.\<close>

lemma match_more_slash_name:
  assumes "match_more name r = Some m"
  shows "sublist (CHR ''/'' # name) (CHR ''/'' # r)"
  using assms
proof (induction name r arbitrary: m rule: match_more.induct)
  case (1 name a b c r)
  show ?case
  proof (cases "dot_char a \<and> dot_char b \<and> c = CHR ''/'' \<and> match_more name r \<noteq> None")
    case True
    then obtain k where k: "match_more name r = Some k" by blast
    from True have seg: "dot_char a \<and> dot_char b \<and> c = CHR ''/''" by simp
    have "sublist (CHR ''/'' # name) (CHR ''/'' # r)" by (rule 1(1)[OF seg k])
    then have "sublist (CHR ''/'' # name) (a # b # c # r)"
      using seg by (simp add: sublist_Cons_right)
    then show ?thesis by (simp add: sublist_Cons_right)
  next
    case False
    then have "startsWith (a # b # c # r) name"
      using 1(2) by (auto split: if_splits option.splits)
    then show ?thesis by (rule startsWith_slash_name)
  qed
qed (auto split: if_splits intro: startsWith_slash_name)

lemma match_at_sublist:
  assumes "match_at name s = Some n"
  shows "sublist (CHR ''/'' # name) s"
proof -
  from assms obtain a b r k where s: "s = a # b # CHR ''/'' # r" and k: "match_more name r = Some k"
    by (auto simp: match_at_def split: list.splits if_splits)
  have "sublist (CHR ''/'' # name) (CHR ''/'' # r)" by (rule match_more_slash_name[OF k])
  then show ?thesis unfolding s by (simp add: sublist_Cons_right)
qed

lemma replace_all_unchanged:
  "\<not> sublist (CHR ''/'' # name) s \<Longrightarrow> replace_all name rep s = s"
proof (induction s)
  case Nil
  show ?case by simp
next
  case (Cons c s)
  have "match_at name (c # s) = None"
    using Cons.prems match_at_sublist[of name "c # s"] by (cases "match_at name (c # s)") auto
  moreover have "\<not> sublist (CHR ''/'' # name) s"
    using Cons.prems by (simp add: sublist_Cons_right)
  ultimately show ?case using Cons.IH by simp
qed

lemma match_more_name_here:
  assumes "CHR ''/'' \<notin> set name" and "\<not> sublist (CHR ''/'' # name) post"
  shows "match_more name (name @ post) = Some (length name)"
proof -
  have sw: "startsWith (name @ post) name" by (simp add: startsWith_def)
  have no_more: "\<not> (c = CHR ''/'' \<and> match_more name r \<noteq> None)"
    if np: "name @ post = a # b # c # r" for a b c r
  proof
    assume "c = CHR ''/'' \<and> match_more name r \<noteq> None"
    then obtain m where c: "c = CHR ''/''" and m: "match_more name r = Some m" by blast
    have sub: "sublist (CHR ''/'' # name) (CHR ''/'' # r)" by (rule match_more_slash_name[OF m])
    have len: "length name \<le> 2"
    proof (rule ccontr)
      assume "\<not> length name \<le> 2"
      then have "(name @ post) ! 2 = name ! 2" and "name ! 2 \<in> set name"
        by (simp_all add: nth_append)
      with np c assms(1) show False by simp
    qed
    have "CHR ''/'' # r = drop 2 (name @ post)" using np c by simp
    also have "\<dots> = drop (2 - length name) post" using len by simp
    finally have "sublist (CHR ''/'' # r) post" by (metis sublist_drop)
    with sub have "sublist (CHR ''/'' # name) post" by (rule sublist_trans)
    with assms(2) show False by simp
  qed
  show ?thesis
  proof (cases "name @ post")
    case Nil
    then show ?thesis by (simp add: startsWith_def)
  next
    case (Cons a s1)
    note c1 = this
    show ?thesis
    proof (cases s1)
      case Nil
      with c1 sw show ?thesis by simp
    next
      case (Cons b s2)
      note c2 = this
      show ?thesis
      proof (cases s2)
        case Nil
        with c1 c2 sw show ?thesis by simp
      next
        case (Cons c r)
        have np: "name @ post = a # b # c # r" using c1 c2 Cons by simp
        have "(if dot_char a \<and> dot_char b \<and> c = CHR ''/'' then match_more name r else None) = None"
          using no_more[OF np] by auto
        then show ?thesis using sw unfolding np by simp
      qed
    qed
  qed
qed

lemma match_more_dots:
  assumes "match_more name (name @ post) = Some (length name)"
  shows "match_more name (dots j @ name @ post) = Some (3 * j + length name)"
proof (induction j)
  case 0
  show ?case using assms by simp
next
  case (Suc j)
  then show ?case by (simp add: dot_char_def)
qed

lemma match_at_dots:
  assumes "match_more name (name @ post) = Some (length name)"
  shows "match_at name (dots (Suc j) @ name @ post) = Some (3 * Suc j + length name)"
  using match_more_dots[OF assms, of j] by (simp add: match_at_def dot_char_def)

lemma length_dots: "length (dots k) = 3 * k"
  by (induction k) simp_all

lemma replace_all_dots:
  assumes "match_more name (name @ post) = Some (length name)"
  shows "replace_all name rep (dots (Suc j) @ name @ post) = rep @ replace_all name rep post"
proof -
  define whole where "whole = dots (Suc j) @ name @ post"
  have "whole = CHR ''.'' # tl whole" by (simp add: whole_def)
  then obtain s where s: "whole = CHR ''.'' # s" ..
  have m: "match_at name whole = Some (3 * Suc j + length name)"
    unfolding whole_def by (rule match_at_dots[OF assms])
  have l: "length (dots (Suc j) @ name) = 3 * Suc j + length name"
    by (simp only: length_append length_dots)
  have "drop (length (dots (Suc j) @ name)) ((dots (Suc j) @ name) @ post) = post"
    by (rule drop_length_append)
  then have d: "drop (3 * Suc j + length name) whole = post"
    unfolding whole_def l by (simp only: append_assoc)
  have "replace_all name rep whole =
     rep @ replace_all name rep (drop (3 * Suc j + length name) whole)"
    using m unfolding s by (simp only: replace_all.simps option.case)
  also have "\<dots> = rep @ replace_all name rep post" by (simp only: d)
  finally show ?thesis unfolding whole_def .
qed

lemma no_slash_name_across:
  assumes "CHR ''/'' \<notin> set pre" and "CHR ''/'' \<notin> set name"
    and "\<not> sublist (CHR ''/'' # name) post"
  shows "\<not> sublist (CHR ''/'' # name) (pre @ name @ post)"
proof
  assume "sublist (CHR ''/'' # name) (pre @ name @ post)"
  then obtain ps ss where e: "(pre @ name) @ post = ps @ (CHR ''/'' # name) @ ss"
    by (auto simp: sublist_def)
  have le: "length (pre @ name) \<le> length ps"
  proof (rule ccontr)
    assume "\<not> length (pre @ name) \<le> length ps"
    then have lt: "length ps < length (pre @ name)" by simp
    have "((pre @ name) @ post) ! length ps = (pre @ name) ! length ps"
      using lt by (simp only: nth_append if_True)
    moreover have "(ps @ (CHR ''/'' # name) @ ss) ! length ps = CHR ''/''"
      by (simp add: nth_append)
    ultimately have "(pre @ name) ! length ps = CHR ''/''" using e by simp
    moreover have "(pre @ name) ! length ps \<in> set (pre @ name)" using lt nth_mem by blast
    ultimately show False using assms(1,2) by auto
  qed
  have "take (length (pre @ name)) ((pre @ name) @ post) = pre @ name"
    by (rule take_length_append)
  moreover have "take (length (pre @ name)) (ps @ (CHR ''/'' # name) @ ss)
      = take (length (pre @ name)) ps"
    using le by (simp only: take_append) simp
  ultimately have "take (length (pre @ name)) ps = pre @ name" using e by (simp only:)
  then have "ps = (pre @ name) @ drop (length (pre @ name)) ps"
    by (metis append_take_drop_id)
  then obtain q where "ps = (pre @ name) @ q" ..
  with e have "post = q @ (CHR ''/'' # name) @ ss" by simp
  then have "sublist (CHR ''/'' # name) post" by (auto simp: sublist_def)
  with assms(3) show False by simp
qed

lemma dot_not_plain: "CHR ''.'' \<notin> set plain_chars"
  by (simp add: plain_chars_def)

lemma plain_name_no_dot:
  assumes "plain_name name"
  shows "CHR ''.'' \<notin> set name"
proof -
  have "set name \<subseteq> set plain_chars"
    using assms by (auto simp: plain_name_def list_all_iff)
  then show ?thesis using dot_not_plain by blast
qed

text \<open>The name does not begin where a text that a slash precedes runs into a dot.\<close>

lemma not_startsWith_into_dot:
  assumes "CHR ''.'' \<notin> set name"
    and "\<not> sublist (CHR ''/'' # name) (CHR ''/'' # q)"
  shows "\<not> startsWith (q @ CHR ''.'' # y) name"
proof
  assume "startsWith (q @ CHR ''.'' # y) name"
  then obtain t where "q @ CHR ''.'' # y = name @ t" by (auto simp: startsWith_append)
  then obtain w where "(q = name @ w \<and> w @ CHR ''.'' # y = t) \<or> (q @ w = name \<and> CHR ''.'' # y = w @ t)"
    by (auto simp: append_eq_append_conv2)
  then show False
  proof
    assume "q = name @ w \<and> w @ CHR ''.'' # y = t"
    then have "CHR ''/'' # q = (CHR ''/'' # name) @ w" by simp
    then have "sublist (CHR ''/'' # name) (CHR ''/'' # q)" by (metis sublist_append_rightI)
    with assms(2) show False by simp
  next
    assume a: "q @ w = name \<and> CHR ''.'' # y = w @ t"
    show False
    proof (cases w)
      case Nil
      with a have "CHR ''/'' # q = CHR ''/'' # name" by simp
      with assms(2) show False by simp
    next
      case (Cons c w')
      with a have "c = CHR ''.''" by simp
      with a Cons have "CHR ''.'' \<in> set name" by auto
      with assms(1) show False by simp
    qed
  qed
qed

lemma no_chain_before_run:
  assumes "CHR ''.'' \<notin> set name"
  shows "q \<noteq> [] \<Longrightarrow> last q \<noteq> CHR ''/'' \<Longrightarrow> \<not> sublist (CHR ''/'' # name) (CHR ''/'' # q) \<Longrightarrow>
         match_more name (q @ CHR ''.'' # CHR ''.'' # x) = None"
proof (induction q rule: length_induct)
  case (1 q)
  have nsw: "\<not> startsWith (q @ CHR ''.'' # CHR ''.'' # x) name"
    by (rule not_startsWith_into_dot[OF assms 1(4)])
  show ?case
  proof (cases q)
    case Nil
    with 1(2) show ?thesis by simp
  next
    case (Cons a q1)
    note c1 = this
    show ?thesis
    proof (cases q1)
      case Nil
      with c1 nsw show ?thesis by simp
    next
      case (Cons b q2)
      note c2 = this
      show ?thesis
      proof (cases q2)
        case Nil
        with c1 c2 nsw show ?thesis by simp
      next
        case (Cons c q3)
        have q: "q = a # b # c # q3" using c1 c2 Cons by simp
        have "(if dot_char a \<and> dot_char b \<and> c = CHR ''/''
               then match_more name (q3 @ CHR ''.'' # CHR ''.'' # x) else None) = None"
        proof (cases "c = CHR ''/''")
          case False
          then show ?thesis by simp
        next
          case True
          have ne: "q3 \<noteq> []" using 1(3) q True by auto
          have la: "last q3 \<noteq> CHR ''/''" using 1(3) q ne by simp
          have "sublist (CHR ''/'' # q3) (CHR ''/'' # q)"
            unfolding q True by (simp add: sublist_Cons_right)
          then have ns: "\<not> sublist (CHR ''/'' # name) (CHR ''/'' # q3)"
            using 1(4) sublist_trans by blast
          have "length q3 < length q" using q by simp
          with 1(1) ne la ns have "match_more name (q3 @ CHR ''.'' # CHR ''.'' # x) = None" by blast
          then show ?thesis by simp
        qed
        then show ?thesis using nsw unfolding q by simp
      qed
    qed
  qed
qed

lemma no_match_before_run:
  assumes "CHR ''.'' \<notin> set name" and "p \<noteq> []" and "last p \<noteq> CHR ''/''"
    and "\<not> sublist (CHR ''/'' # name) p"
  shows "match_at name (p @ CHR ''.'' # CHR ''.'' # x) = None"
proof (cases p)
  case Nil
  with assms(2) show ?thesis by simp
next
  case (Cons a p1)
  note c1 = this
  show ?thesis
  proof (cases p1)
    case Nil
    with c1 show ?thesis by (simp add: match_at_def)
  next
    case (Cons b p2)
    note c2 = this
    show ?thesis
    proof (cases p2)
      case Nil
      with c1 c2 show ?thesis by (simp add: match_at_def)
    next
      case (Cons c p3)
      have p: "p = a # b # c # p3" using c1 c2 Cons by simp
      show ?thesis
      proof (cases "c = CHR ''/''")
        case False
        then show ?thesis unfolding p by (simp add: match_at_def)
      next
        case True
        have ne: "p3 \<noteq> []" using assms(3) p True by auto
        have la: "last p3 \<noteq> CHR ''/''" using assms(3) p ne by simp
        have "sublist (CHR ''/'' # p3) p"
          unfolding p True by (simp add: sublist_Cons_right)
        then have ns: "\<not> sublist (CHR ''/'' # name) (CHR ''/'' # p3)"
          using assms(4) sublist_trans by blast
        have "match_more name (p3 @ CHR ''.'' # CHR ''.'' # x) = None"
          by (rule no_chain_before_run[OF assms(1) ne la ns])
        then show ?thesis unfolding p by (simp add: match_at_def)
      qed
    qed
  qed
qed

lemma replace_all_before_run:
  assumes "CHR ''.'' \<notin> set name"
  shows "pre = [] \<or> last pre \<noteq> CHR ''/'' \<Longrightarrow> \<not> sublist (CHR ''/'' # name) pre \<Longrightarrow>
   replace_all name rep (pre @ CHR ''.'' # CHR ''.'' # x) =
     pre @ replace_all name rep (CHR ''.'' # CHR ''.'' # x)"
proof (induction pre)
  case Nil
  show ?case by simp
next
  case (Cons c p)
  have l: "last (c # p) \<noteq> CHR ''/''" using Cons.prems(1) by simp
  have "match_at name ((c # p) @ CHR ''.'' # CHR ''.'' # x) = None"
    by (rule no_match_before_run[OF assms _ l Cons.prems(2)]) simp
  moreover have "p = [] \<or> last p \<noteq> CHR ''/''" using l by (cases p) auto
  moreover have "\<not> sublist (CHR ''/'' # name) p"
    using Cons.prems(2) by (simp add: sublist_Cons_right)
  ultimately show ?case using Cons.IH by simp
qed

lemma no_slash_name_from_name:
  assumes "CHR ''/'' \<notin> set name" and "\<not> sublist (CHR ''/'' # name) post"
  shows "\<not> sublist (CHR ''/'' # name) (name @ post)"
  using no_slash_name_across[of "[]" name post] assms by simp

text \<open>The pattern takes any two characters and a slash for a segment: here it takes
  \<^verbatim>\<open>mg/\<close> together with the name that follows.\<close>

lemma segment_of_any_two_characters:
  "replace_all ''es'' ''asset'' ''url(img/es/icon.png)'' = ''url(iasset/icon.png)''"
  by (simp add: match_at_def dot_char_def startsWith_def)

text \<open>And it takes the name and the slash behind it for a segment when the name comes
  again right after: here \<^verbatim>\<open>es/\<close> together with the \<^verbatim>\<open>es\<close> of \<^verbatim>\<open>escape\<close>.\<close>

lemma segment_taken_from_the_path:
  "replace_all ''es'' ''asset'' ''url(../es/escape/icon.png)'' = ''url(assetcape/icon.png)''"
  by (simp add: match_at_def dot_char_def startsWith_def)

text \<open>The name that follows a run of parent segments ends the match when a stretch and
  another reference come behind it, or a rest without a slash followed by the name.\<close>

lemma name_ends_before_run:
  assumes "CHR ''/'' \<notin> set name" and "CHR ''.'' \<notin> set name" and "name \<noteq> []"
    and "\<not> sublist (CHR ''/'' # name) s" and "s = [] \<or> last s \<noteq> CHR ''/''"
  shows "match_more name (name @ s @ CHR ''.'' # CHR ''.'' # x) = Some (length name)"
proof -
  define w where "w = name @ s"
  have wne: "w \<noteq> []" using assms(3) by (simp add: w_def)
  have wl: "last w \<noteq> CHR ''/''"
  proof (cases "s = []")
    case True
    then have "last w = last name" by (simp add: w_def)
    moreover have "last name \<in> set name" using assms(3) by simp
    ultimately show ?thesis using assms(1) by auto
  next
    case False
    then show ?thesis using assms(5) by (simp add: w_def)
  qed
  have wns: "\<not> sublist (CHR ''/'' # name) w"
    unfolding w_def by (rule no_slash_name_from_name[OF assms(1,4)])
  have sw: "startsWith (w @ CHR ''.'' # CHR ''.'' # x) name" by (simp add: startsWith_def w_def)
  have goal: "match_more name (w @ CHR ''.'' # CHR ''.'' # x) = Some (length name)"
  proof (cases w)
    case Nil
    with wne show ?thesis by simp
  next
    case (Cons a w1)
    note c1 = this
    show ?thesis
    proof (cases w1)
      case Nil
      with c1 sw show ?thesis by simp
    next
      case (Cons b w2)
      note c2 = this
      show ?thesis
      proof (cases w2)
        case Nil
        with c1 c2 sw show ?thesis by simp
      next
        case (Cons c q)
        have w: "w = a # b # c # q" using c1 c2 Cons by simp
        have "(if dot_char a \<and> dot_char b \<and> c = CHR ''/''
               then match_more name (q @ CHR ''.'' # CHR ''.'' # x) else None) = None"
        proof (cases "c = CHR ''/''")
          case False
          then show ?thesis by simp
        next
          case True
          have ne: "q \<noteq> []" using wl w True by auto
          have la: "last q \<noteq> CHR ''/''" using wl w ne by simp
          have "sublist (CHR ''/'' # q) w"
            unfolding w True by (simp add: sublist_Cons_right)
          then have ns: "\<not> sublist (CHR ''/'' # name) (CHR ''/'' # q)"
            using wns sublist_trans by blast
          have "match_more name (q @ CHR ''.'' # CHR ''.'' # x) = None"
            by (rule no_chain_before_run[OF assms(2) ne la ns])
          then show ?thesis by simp
        qed
        then show ?thesis using sw unfolding w by simp
      qed
    qed
  qed
  then show ?thesis by (simp add: w_def)
qed

lemma name_ends_before_references:
  assumes "CHR ''/'' \<notin> set name" and "CHR ''.'' \<notin> set name" and "name \<noteq> []"
    and "list_all (\<lambda>r. stretch name (fst r)) rs" and "\<not> sublist (CHR ''/'' # name) tail"
  shows "match_more name (name @ references name rs @ tail) = Some (length name)"
proof (cases rs)
  case Nil
  then show ?thesis using match_more_name_here[OF assms(1,5)] by simp
next
  case (Cons r rs')
  have st: "stretch name (fst r)" using assms(4) Cons by simp
  have "match_more name (name @ fst r @ CHR ''.'' # CHR ''.'' #
      (CHR ''/'' # dots (snd r) @ name @ references name rs' @ tail)) = Some (length name)"
    using st by (intro name_ends_before_run[OF assms(1,2,3)]) (simp_all add: stretch_def)
  then show ?thesis using Cons by simp
qed

lemma replace_all_references:
  assumes "CHR ''/'' \<notin> set name" and "CHR ''.'' \<notin> set name" and "name \<noteq> []"
    and "\<not> sublist (CHR ''/'' # name) tail"
  shows "list_all (\<lambda>r. stretch name (fst r)) rs \<Longrightarrow>
         replace_all name rep (references name rs @ tail) = rewritten rep rs @ tail"
proof (induction rs)
  case Nil
  show ?case using replace_all_unchanged[OF assms(4)] by simp
next
  case (Cons r rs)
  have st: "stretch name (fst r)" and sts: "list_all (\<lambda>r. stretch name (fst r)) rs"
    using Cons.prems by simp_all
  let ?rest = "references name rs @ tail"
  have "replace_all name rep (references name (r # rs) @ tail)
      = replace_all name rep (fst r @ CHR ''.'' # CHR ''.'' # (CHR ''/'' # dots (snd r) @ name @ ?rest))"
    by simp
  also have "\<dots> = fst r @ replace_all name rep (CHR ''.'' # CHR ''.'' # (CHR ''/'' # dots (snd r) @ name @ ?rest))"
    using st by (intro replace_all_before_run[OF assms(2)]) (simp_all add: stretch_def)
  also have "CHR ''.'' # CHR ''.'' # (CHR ''/'' # dots (snd r) @ name @ ?rest)
      = dots (Suc (snd r)) @ name @ ?rest"
    by simp
  also have "replace_all name rep (dots (Suc (snd r)) @ name @ ?rest) = rep @ replace_all name rep ?rest"
    by (rule replace_all_dots) (rule name_ends_before_references[OF assms(1,2,3) sts assms(4)])
  also have "replace_all name rep ?rest = rewritten rep rs @ tail" by (rule Cons.IH[OF sts])
  finally show ?case by simp
qed

lemma replace_every_reference:
  assumes "plain_name name" and "list_all (\<lambda>r. stretch name (fst r)) rs"
    and "\<not> sublist (CHR ''/'' # name) tail"
  shows "replace_all name rep (references name rs @ tail) = rewritten rep rs @ tail"
proof -
  have a: "CHR ''/'' \<notin> set name" and b: "name \<noteq> []" using plain_nameD[OF assms(1)] by simp_all
  have c: "CHR ''.'' \<notin> set name" by (rule plain_name_no_dot[OF assms(1)])
  show ?thesis by (rule replace_all_references[OF a c b assms(3,2)])
qed

lemma distCss_artifact:
  assumes "fs (index_path cfg) = Some src"
    and "compiler \<lparr>v_relative = rawFileName cfg, v_contents = src\<rparr> = Some v"
  shows "distCss_stream compiler cleanCSS mode cwd cfg isDev fs =
     pipe (pipe \<lparr>items = [v\<lparr>v_contents :=
                 replace_all (js_str (output_es cfg)) (relative cwd (dist_path cfg) (asset_output cfg))
                   (v_contents v)\<rparr>], failed = False\<rparr>
             (gulpIf (needCleanCss isDev mode) cleanCSS))
       (rename (cssFileName cfg))"
  using assms
  by (cases isDev)
     (simp_all add: distCss_stream_def gulp_src_file_def pipe_def notifyLessCompileResult_def
        replace_plugin_def Let_def)

lemma distCss_artifact_file:
  assumes "distCss_stream compiler cleanCSS mode cwd cfg isDev fs =
     pipe (pipe \<lparr>items = [w], failed = False\<rparr> (gulpIf (needCleanCss isDev mode) cleanCSS))
       (rename (cssFileName cfg))"
  shows "fst (distCss compiler cleanCSS mode cwd cfg isDev fs) (dist_path cfg @ ''/'' @ cssFileName cfg)
     = (if needCleanCss isDev mode
        then (case cleanCSS w of
                None \<Rightarrow> fs (dist_path cfg @ ''/'' @ cssFileName cfg)
              | Some m \<Rightarrow> Some (v_contents m))
        else Some (v_contents w))"
  unfolding distCss_def Let_def assms
  by (simp add: pipe_def rename_def gulpIf_def dest_writes_def apply_writes_def split: option.split)

text \<open>
  C4, as the code has it. The module directory has a plain name and the relative path
  from the distributable directory to the asset directory has no \<^verbatim>\<open>$\<close> in it. The index
  file is there and the compiler turns it into a text made of any number of references,
  each with a stretch before it, and a rest that holds no slash followed by the name.
  Then, in development mode and in production mode alike, the one file that leaves the
  rewrite is that text with every reference replaced by the relative path to the asset
  directory and everything else kept, the name of the module directory that no slash
  precedes included. That file goes through the minifier when \<open>needCleanCss\<close> holds and
  is renamed; the artifact that \<^verbatim>\<open>distCss\<close> writes is the rewritten text itself, or what
  the minifier makes of it.
\<close>

theorem artifact_rewrites_every_reference:
  assumes "plain_name (js_str (output_es cfg))"
    and "CHR ''$'' \<notin> set (relative cwd (dist_path cfg) (asset_output cfg))"
    and "list_all (\<lambda>r. stretch (js_str (output_es cfg)) (fst r)) refs"
    and "\<not> sublist (CHR ''/'' # js_str (output_es cfg)) rest"
    and "fs (index_path cfg) = Some src"
    and "compiler \<lparr>v_relative = rawFileName cfg, v_contents = src\<rparr> = Some v"
    and "v_contents v = references (js_str (output_es cfg)) refs @ rest"
  shows "distCss_stream compiler cleanCSS mode cwd cfg isDev fs =
           pipe (pipe \<lparr>items = [v\<lparr>v_contents :=
                         rewritten (relative cwd (dist_path cfg) (asset_output cfg)) refs @ rest\<rparr>],
                       failed = False\<rparr>
                   (gulpIf (needCleanCss isDev mode) cleanCSS))
             (rename (cssFileName cfg)) \<and>
         fst (distCss compiler cleanCSS mode cwd cfg isDev fs) (dist_path cfg @ ''/'' @ cssFileName cfg)
           = (if needCleanCss isDev mode
              then (case cleanCSS (v\<lparr>v_contents :=
                            rewritten (relative cwd (dist_path cfg) (asset_output cfg)) refs @ rest\<rparr>) of
                      None \<Rightarrow> fs (dist_path cfg @ ''/'' @ cssFileName cfg)
                    | Some m \<Rightarrow> Some (v_contents m))
              else Some (rewritten (relative cwd (dist_path cfg) (asset_output cfg)) refs @ rest))"
proof -
  have r: "replace_all (js_str (output_es cfg)) (relative cwd (dist_path cfg) (asset_output cfg))
             (v_contents v)
           = rewritten (relative cwd (dist_path cfg) (asset_output cfg)) refs @ rest"
    unfolding assms(7) by (rule replace_every_reference[OF assms(1,3,4)])
  have a: "distCss_stream compiler cleanCSS mode cwd cfg isDev fs =
           pipe (pipe \<lparr>items = [v\<lparr>v_contents :=
                         rewritten (relative cwd (dist_path cfg) (asset_output cfg)) refs @ rest\<rparr>],
                       failed = False\<rparr>
                   (gulpIf (needCleanCss isDev mode) cleanCSS))
             (rename (cssFileName cfg))"
    using distCss_artifact[of fs cfg src compiler v cleanCSS mode cwd isDev] assms(5,6)
    by (simp only: r)
  show ?thesis using a distCss_artifact_file[OF a] by simp
qed

text \<open>A stylesheet with two references, one through one parent segment and one through
  two, and the bare name behind them; the sample configuration, a compiler that hands the
  text on and a minifier that removes the blanks. In development mode and in production
  mode both references are rewritten and the bare name stays.\<close>

theorem artifact_rewrites_every_reference_witness:
  "plain_name (js_str (output_es scenario_config)) \<and>
   CHR ''$'' \<notin> set (relative [''home'', ''repo''] (dist_path scenario_config) (asset_output scenario_config)) \<and>
   list_all (\<lambda>r. stretch (js_str (output_es scenario_config)) (fst r))
     [(''a { b: url('', 0), (''/a.png) } c { d: url('', 1)] \<and>
   \<not> sublist (CHR ''/'' # js_str (output_es scenario_config)) ''/b.png); e: url(es/c.png) }'' \<and>
   fst (distCss Some (\<lambda>v. Some (v\<lparr>v_contents := filter (\<lambda>c. c \<noteq> CHR '' '') (v_contents v)\<rparr>))
         None [''home'', ''repo''] scenario_config True
         [index_path scenario_config \<mapsto>
            ''a { b: url(../es/a.png) } c { d: url(../../es/b.png); e: url(es/c.png) }''])
       (dist_path scenario_config @ ''/'' @ cssFileName scenario_config)
     = Some ''a { b: url(asset/a.png) } c { d: url(asset/b.png); e: url(es/c.png) }'' \<and>
   fst (distCss Some (\<lambda>v. Some (v\<lparr>v_contents := filter (\<lambda>c. c \<noteq> CHR '' '') (v_contents v)\<rparr>))
         None [''home'', ''repo''] scenario_config False
         [index_path scenario_config \<mapsto>
            ''a { b: url(../es/a.png) } c { d: url(../../es/b.png); e: url(es/c.png) }''])
       (dist_path scenario_config @ ''/'' @ cssFileName scenario_config)
     = Some ''a{b:url(asset/a.png)}c{d:url(asset/b.png);e:url(es/c.png)}''"
proof -
  let ?src = "''a { b: url(../es/a.png) } c { d: url(../../es/b.png); e: url(es/c.png) }''"
  let ?refs = "[(''a { b: url('', 0::nat), (''/a.png) } c { d: url('', 1)]"
  let ?rest = "''/b.png); e: url(es/c.png) }''"
  let ?min = "\<lambda>v. Some (v\<lparr>v_contents := filter (\<lambda>c. c \<noteq> CHR '' '') (v_contents v)\<rparr>)"
  have e: "js_str (output_es scenario_config) = ''es''"
    by (simp add: scenario_config_def js_str_def)
  have r: "relative [''home'', ''repo''] (dist_path scenario_config) (asset_output scenario_config) = ''asset''"
    by (simp add: scenario_config_def relative_def resolve_def startsWith_def)
  have h1: "plain_name (js_str (output_es scenario_config))"
    unfolding e by (simp add: plain_name_def plain_chars_def)
  have h2: "CHR ''$'' \<notin> set (relative [''home'', ''repo''] (dist_path scenario_config)
      (asset_output scenario_config))"
    unfolding r by simp
  have h3: "list_all (\<lambda>r. stretch (js_str (output_es scenario_config)) (fst r)) ?refs"
    unfolding e by (simp add: stretch_def sublist_Cons_right)
  have h4: "\<not> sublist (CHR ''/'' # js_str (output_es scenario_config)) ?rest"
    unfolding e by (simp add: sublist_Cons_right)
  have h5: "[index_path scenario_config \<mapsto> ?src] (index_path scenario_config) = Some ?src"
    by simp
  have h6: "Some \<lparr>v_relative = rawFileName scenario_config, v_contents = ?src\<rparr>
    = Some \<lparr>v_relative = rawFileName scenario_config, v_contents = ?src\<rparr>"
    by simp
  have h7: "v_contents \<lparr>v_relative = rawFileName scenario_config, v_contents = ?src\<rparr>
    = references (js_str (output_es scenario_config)) ?refs @ ?rest"
    unfolding e by simp
  have d: "fst (distCss Some ?min None [''home'', ''repo''] scenario_config True
         [index_path scenario_config \<mapsto> ?src])
       (dist_path scenario_config @ ''/'' @ cssFileName scenario_config)
     = Some ''a { b: url(asset/a.png) } c { d: url(asset/b.png); e: url(es/c.png) }''"
    using artifact_rewrites_every_reference[of scenario_config "[''home'', ''repo'']"
        ?refs ?rest "[index_path scenario_config \<mapsto> ?src]" ?src Some
        "\<lparr>v_relative = rawFileName scenario_config, v_contents = ?src\<rparr>" ?min None True,
        OF h1 h2 h3 h4 h5 h6 h7]
    unfolding r by (simp add: needCleanCss_def)
  have p: "fst (distCss Some ?min None [''home'', ''repo''] scenario_config False
         [index_path scenario_config \<mapsto> ?src])
       (dist_path scenario_config @ ''/'' @ cssFileName scenario_config)
     = Some ''a{b:url(asset/a.png)}c{d:url(asset/b.png);e:url(es/c.png)}''"
    using artifact_rewrites_every_reference[of scenario_config "[''home'', ''repo'']"
        ?refs ?rest "[index_path scenario_config \<mapsto> ?src]" ?src Some
        "\<lparr>v_relative = rawFileName scenario_config, v_contents = ?src\<rparr>" ?min None False,
        OF h1 h2 h3 h4 h5 h6 h7]
    unfolding r by (simp add: needCleanCss_def truthy_def)
  show ?thesis using h1 h2 h3 h4 d p by simp
qed

text \<open>C4, as the claim has it: an index whose compiled text names the module directory
  without a parent segment before it. The artifact that \<^verbatim>\<open>distCss\<close> writes still holds the
  name, in development mode and in production mode, there with a minifier that finds
  nothing to shorten.\<close>

theorem artifact_keeps_bare_name_counterexample:
  "fst (distCss Some Some None [''home'', ''repo''] scenario_config True
         [index_path scenario_config \<mapsto> ''a{background:url(es/icon.png)}''])
     (dist_path scenario_config @ ''/'' @ cssFileName scenario_config)
   = Some ''a{background:url(es/icon.png)}'' \<and>
   fst (distCss Some Some None [''home'', ''repo''] scenario_config False
         [index_path scenario_config \<mapsto> ''a{background:url(es/icon.png)}''])
     (dist_path scenario_config @ ''/'' @ cssFileName scenario_config)
   = Some ''a{background:url(es/icon.png)}'' \<and>
   sublist ''es'' ''a{background:url(es/icon.png)}''"
  by (simp add: distCss_def distCss_stream_def gulp_src_file_def pipe_def notifyLessCompileResult_def
      replace_plugin_def rename_def gulpIf_def needCleanCss_def dest_writes_def apply_writes_def
      index_path_def scenario_config_def js_str_def match_at_def startsWith_def dot_char_def
      Let_def sublist_Cons_right)

subsection \<open>The one-shot build\<close>

text \<open>The promise of \<^verbatim>\<open>copyFileWatched\<close> stays pending, with nothing printed, when a stream
  before the last \<^verbatim>\<open>gulp.dest\<close> emits the error and when there is no pattern to watch.\<close>

lemma copyFileWatched_pending:
  "copyFileWatched EarlierStreamFails scenario_config = ([], Unsettled) \<and>
   copyFileWatched course (scenario_config\<lparr>css_watch := []\<rparr>) = ([], Unsettled) \<and>
   copyFileWatched CopyEnds scenario_config = ([], Resolved)"
  by (simp add: copyFileWatched_def destDirs_def truthy_def scenario_config_def js_str_def)

text \<open>
  C5, at a failing input. With the sample configuration and nothing failing, the promise
  of \<^verbatim>\<open>build\<close> is resolved. With a copy whose last \<^verbatim>\<open>gulp.dest\<close> emits an error,
  \<^verbatim>\<open>copyFileWatched\<close> rejects its promise, the series stops after its first group,
  \<^verbatim>\<open>distLess\<close>, \<^verbatim>\<open>distCss\<close> and the resolving step are never started, and the promise of
  \<^verbatim>\<open>build\<close> is left unsettled.
\<close>

theorem build_unsettled_after_copy_error:
  "build scenario_config no_faults = Resolved \<and>
   snd (copyFileWatched LastDestFails scenario_config) = Rejected \<and>
   fst (run scenario_config copy_fault build_graph)
     = [CopyAsset, CopyFileWatched, CompileLess, HandleStyleJSEntry] \<and>
   build scenario_config copy_fault = Unsettled"
  by (simp add: build_def build_graph_def copy_fault_def no_faults_def scenario_config_def
       normalize_def leaf_handle_def copyFileWatched_def destDirs_def truthy_def both_def js_str_def)

subsection \<open>No entries\<close>

text \<open>
  C6. When the entry globs match nothing, \<^verbatim>\<open>distLess\<close> leaves the files as they are and
  calls its callback; when the index file is not there either, \<^verbatim>\<open>distCss\<close> run after it
  reads an empty stream, writes nothing and its stream ends without an error.
\<close>

theorem empty_match_is_no_error:
  assumes "glob_entries glob cfg = []" and "fs (index_path cfg) = None"
  shows "distLess cfg cwd glob fs = fs \<and>
         normalize (leaf_handle cfg f DistLess) = Completed \<and>
         distCss compiler cleanCSS mode cwd cfg isDev (distLess cfg cwd glob fs)
           = (fs, \<lparr>items = [], failed = False\<rparr>)"
  using assms
  by (simp add: distLess_def normalize_def leaf_handle_def distCss_def distCss_stream_def
      gulp_src_file_def pipe_def notifyLessCompileResult_def dest_writes_def apply_writes_def Let_def)

theorem empty_match_is_no_error_witness:
  "glob_entries (\<lambda>p. []) scenario_config = [] \<and> Map.empty (index_path scenario_config) = None \<and>
   distLess scenario_config [''repo''] (\<lambda>p. []) Map.empty = Map.empty \<and>
   distCss Some Some None [''repo''] scenario_config True
       (distLess scenario_config [''repo''] (\<lambda>p. []) Map.empty)
      = (Map.empty, \<lparr>items = [], failed = False\<rparr>)"
proof -
  have a: "glob_entries (\<lambda>p. []) scenario_config = []"
    by (simp add: glob_entries_def scenario_config_def)
  have b: "(Map.empty :: files) (index_path scenario_config) = None" by simp
  show ?thesis
    using a b empty_match_is_no_error[OF a b, of "[''repo'']" no_faults Some Some None True]
    by auto
qed

subsection \<open>Minification\<close>

lemma pipe_Some: "pipe s Some = s"
proof -
  have "through_items Some vs = (vs, False)" for vs :: "vinyl list"
    by (induction vs) simp_all
  then show ?thesis by (simp add: pipe_def)
qed

text \<open>
  C7. For every value of \<open>isDev\<close> and of the build mode, the stream of \<^verbatim>\<open>distCss\<close> is the
  compiled index after the rewrite, then the minifier, then the renaming, when \<open>isDev\<close> is
  false and the build mode is undefined, the empty string (which JavaScript takes as
  false, as it does an unset value) or \<^verbatim>\<open>production\<close>; in every other case it is the
  compiled index after the rewrite and the renaming, with no minifier in between. So the
  minifier is applied exactly in the first case. In particular, in development mode the
  stream is the same whatever the minifier is, so the artifact keeps its formatting, and
  with \<open>isDev\<close> false and no build mode the minifier stands between the rewrite and the
  renaming.
\<close>

theorem minify_iff_production_build:
  "needCleanCss isDev mode =
     (\<not> isDev \<and> (mode = None \<or> mode = Some [] \<or> mode = Some ''production'')) \<and>
   distCss_stream compiler cleanCSS mode cwd cfg isDev fs =
     (let s0 = pipe (gulp_src_file True fs (index_path cfg) (rawFileName cfg)) compiler;
          s2 = pipe (if isDev then fst (notifyLessCompileResult s0) else s0)
                 (replace_plugin (js_str (output_es cfg))
                    (relative cwd (dist_path cfg) (asset_output cfg)))
      in if \<not> isDev \<and> (mode = None \<or> mode = Some [] \<or> mode = Some ''production'')
         then pipe (pipe s2 cleanCSS) (rename (cssFileName cfg))
         else pipe s2 (rename (cssFileName cfg))) \<and>
   distCss_stream compiler cleanCSS mode cwd cfg True fs =
     distCss_stream compiler Some mode cwd cfg True fs \<and>
   distCss_stream compiler cleanCSS None cwd cfg False fs =
     pipe (pipe (pipe (pipe (gulp_src_file True fs (index_path cfg) (rawFileName cfg)) compiler)
        (replace_plugin (js_str (output_es cfg)) (relative cwd (dist_path cfg) (asset_output cfg))))
        cleanCSS) (rename (cssFileName cfg))"
proof -
  have n: "needCleanCss isDev mode =
     (\<not> isDev \<and> (mode = None \<or> mode = Some [] \<or> mode = Some ''production''))"
    by (auto simp add: needCleanCss_def truthy_def split: option.splits)
  have a: "distCss_stream compiler cleanCSS mode cwd cfg isDev fs =
     (let s0 = pipe (gulp_src_file True fs (index_path cfg) (rawFileName cfg)) compiler;
          s2 = pipe (if isDev then fst (notifyLessCompileResult s0) else s0)
                 (replace_plugin (js_str (output_es cfg))
                    (relative cwd (dist_path cfg) (asset_output cfg)))
      in if \<not> isDev \<and> (mode = None \<or> mode = Some [] \<or> mode = Some ''production'')
         then pipe (pipe s2 cleanCSS) (rename (cssFileName cfg))
         else pipe s2 (rename (cssFileName cfg)))"
    unfolding distCss_stream_def n gulpIf_def Let_def by (simp add: pipe_Some)
  have b: "distCss_stream compiler cleanCSS mode cwd cfg True fs =
     distCss_stream compiler Some mode cwd cfg True fs"
    by (simp add: distCss_stream_def gulpIf_def needCleanCss_def Let_def)
  have c: "distCss_stream compiler cleanCSS None cwd cfg False fs =
     pipe (pipe (pipe (pipe (gulp_src_file True fs (index_path cfg) (rawFileName cfg)) compiler)
        (replace_plugin (js_str (output_es cfg)) (relative cwd (dist_path cfg) (asset_output cfg))))
        cleanCSS) (rename (cssFileName cfg))"
    by (simp add: distCss_stream_def gulpIf_def needCleanCss_def truthy_def Let_def)
  show ?thesis using n a b c by blast
qed

text \<open>A minifier that removes the blanks, with the sample configuration. With \<open>isDev\<close>
  false the artifact is minified when the build mode is undefined, empty or
  \<^verbatim>\<open>production\<close> and keeps its blanks when the build mode is \<^verbatim>\<open>development\<close>; with \<open>isDev\<close>
  true it keeps them, also when the build mode is \<^verbatim>\<open>production\<close>.\<close>

theorem minify_iff_production_build_witness:
  "fst (distCss Some (\<lambda>v. Some (v\<lparr>v_contents := filter (\<lambda>c. c \<noteq> CHR '' '') (v_contents v)\<rparr>))
          None [''repo''] scenario_config False [index_path scenario_config \<mapsto> ''a { }''])
      ''dist/index.css'' = Some ''a{}'' \<and>
   fst (distCss Some (\<lambda>v. Some (v\<lparr>v_contents := filter (\<lambda>c. c \<noteq> CHR '' '') (v_contents v)\<rparr>))
          (Some []) [''repo''] scenario_config False [index_path scenario_config \<mapsto> ''a { }''])
      ''dist/index.css'' = Some ''a{}'' \<and>
   fst (distCss Some (\<lambda>v. Some (v\<lparr>v_contents := filter (\<lambda>c. c \<noteq> CHR '' '') (v_contents v)\<rparr>))
          (Some ''production'') [''repo''] scenario_config False [index_path scenario_config \<mapsto> ''a { }''])
      ''dist/index.css'' = Some ''a{}'' \<and>
   fst (distCss Some (\<lambda>v. Some (v\<lparr>v_contents := filter (\<lambda>c. c \<noteq> CHR '' '') (v_contents v)\<rparr>))
          (Some ''development'') [''repo''] scenario_config False [index_path scenario_config \<mapsto> ''a { }''])
      ''dist/index.css'' = Some ''a { }'' \<and>
   fst (distCss Some (\<lambda>v. Some (v\<lparr>v_contents := filter (\<lambda>c. c \<noteq> CHR '' '') (v_contents v)\<rparr>))
          None [''repo''] scenario_config True [index_path scenario_config \<mapsto> ''a { }''])
      ''dist/index.css'' = Some ''a { }'' \<and>
   fst (distCss Some (\<lambda>v. Some (v\<lparr>v_contents := filter (\<lambda>c. c \<noteq> CHR '' '') (v_contents v)\<rparr>))
          (Some ''production'') [''repo''] scenario_config True [index_path scenario_config \<mapsto> ''a { }''])
      ''dist/index.css'' = Some ''a { }''"
  using minify_iff_production_build[of False None Some
      "\<lambda>v. Some (v\<lparr>v_contents := filter (\<lambda>c. c \<noteq> CHR '' '') (v_contents v)\<rparr>)" "[''repo'']" scenario_config
      "[index_path scenario_config \<mapsto> ''a { }'']"]
    minify_iff_production_build[of False "Some []" Some
      "\<lambda>v. Some (v\<lparr>v_contents := filter (\<lambda>c. c \<noteq> CHR '' '') (v_contents v)\<rparr>)" "[''repo'']" scenario_config
      "[index_path scenario_config \<mapsto> ''a { }'']"]
    minify_iff_production_build[of False "Some ''production''" Some
      "\<lambda>v. Some (v\<lparr>v_contents := filter (\<lambda>c. c \<noteq> CHR '' '') (v_contents v)\<rparr>)" "[''repo'']" scenario_config
      "[index_path scenario_config \<mapsto> ''a { }'']"]
    minify_iff_production_build[of False "Some ''development''" Some
      "\<lambda>v. Some (v\<lparr>v_contents := filter (\<lambda>c. c \<noteq> CHR '' '') (v_contents v)\<rparr>)" "[''repo'']" scenario_config
      "[index_path scenario_config \<mapsto> ''a { }'']"]
    minify_iff_production_build[of True None Some
      "\<lambda>v. Some (v\<lparr>v_contents := filter (\<lambda>c. c \<noteq> CHR '' '') (v_contents v)\<rparr>)" "[''repo'']" scenario_config
      "[index_path scenario_config \<mapsto> ''a { }'']"]
    minify_iff_production_build[of True "Some ''production''" Some
      "\<lambda>v. Some (v\<lparr>v_contents := filter (\<lambda>c. c \<noteq> CHR '' '') (v_contents v)\<rparr>)" "[''repo'']" scenario_config
      "[index_path scenario_config \<mapsto> ''a { }'']"]
  by (simp add: distCss_def gulp_src_file_def pipe_def notifyLessCompileResult_def
      replace_plugin_def rename_def index_path_def dest_writes_def apply_writes_def
      scenario_config_def js_str_def match_at_def startsWith_def dot_char_def Let_def)

subsection \<open>The module-format trees\<close>

lemma foldl_gulp_dest:
  "foldl gulp_dest (s, acc) dirs = (s, acc @ concat (map (\<lambda>dir. dest_writes dir s) dirs))"
  by (induction dirs arbitrary: acc) (simp_all add: gulp_dest_def)

text \<open>
  C8. \<^verbatim>\<open>compileLess\<close> writes, into every configured module-format directory in turn, the
  same files: the stream that has passed the compiler and the minifier, each file under
  its relative path and with the same contents in every directory.
\<close>

theorem compileLess_same_bytes_everywhere:
  "fst (compileLess src compiler cleanCSS cfg) =
     concat (map (\<lambda>dir. map (\<lambda>v. (dir @ ''/'' @ v_relative v, v_contents v))
                 (items (pipe (pipe \<lparr>items = src (css_entry cfg), failed = False\<rparr> compiler) cleanCSS)))
             (destDirs cfg))"
  by (simp add: compileLess_def foldl_gulp_dest Let_def dest_writes_def)

theorem compileLess_same_bytes_everywhere_witness:
  "fst (compileLess (\<lambda>globs. [\<lparr>v_relative = ''button/style/index.less'', v_contents = ''a { }''\<rparr>])
         (\<lambda>v. Some (v\<lparr>v_relative := ''button/style/index.css''\<rparr>))
         (\<lambda>v. Some (v\<lparr>v_contents := ''a{}''\<rparr>)) scenario_config)
   = [(''es/button/style/index.css'', ''a{}''), (''lib/button/style/index.css'', ''a{}'')]"
  using compileLess_same_bytes_everywhere[of
      "\<lambda>globs. [\<lparr>v_relative = ''button/style/index.less'', v_contents = ''a { }''\<rparr>]"
      "\<lambda>v. Some (v\<lparr>v_relative := ''button/style/index.css''\<rparr>)"
      "\<lambda>v. Some (v\<lparr>v_contents := ''a{}''\<rparr>)" scenario_config]
  by (simp add: pipe_def destDirs_def truthy_def js_str_def scenario_config_def)

subsection \<open>The order of index and artifact\<close>

lemma precedes_filter:
  "precedes a b (filter (\<lambda>e. e = a \<or> e = b) tr) = precedes a b tr"
  by (induction tr) (auto simp: precedes_def)

lemma precedes_shuffles:
  assumes "tr \<in> shuffles x y" and "a \<notin> set x" and "b \<notin> set x" and "precedes a b y"
  shows "precedes a b tr"
proof -
  let ?P = "\<lambda>e. e = a \<or> e = b"
  have "filter ?P tr \<in> filter ?P ` shuffles x y" using assms(1) by blast
  also have "\<dots> = shuffles (filter ?P x) (filter ?P y)" by (rule filter_shuffles)
  also have "filter ?P x = []" using assms(2,3) by (auto simp: filter_empty_conv)
  finally have "filter ?P tr = filter ?P y" by simp
  then have "precedes a b (filter ?P tr) = precedes a b (filter ?P y)" by simp
  then show ?thesis using assms(4) by (simp add: precedes_filter)
qed

lemma fast_traces:
  "tr \<in> traces cfg glob f fastBuild \<Longrightarrow>
   \<exists>y \<in> traces cfg glob f (Series [Leaf CopyFileWatched, Leaf DistLess, Leaf DistCssDropped]).
     tr \<in> shuffles (leaf_events cfg glob f CopyAsset) y"
  by (auto simp: fastBuild_def)

lemma copyAsset_events:
  "set (leaf_events cfg glob f CopyAsset) \<subseteq> {Invoke CopyAsset, Signal CopyAsset}"
  by (auto simp: leaf_events_def)

lemma series_traces:
  "y \<in> traces cfg glob f (Series [Leaf CopyFileWatched, Leaf DistLess, Leaf DistCssDropped]) \<Longrightarrow>
   precedes (Signal DistLess) (Invoke (DistCss True)) y \<and>
   (glob_entries glob cfg \<noteq> [] \<longrightarrow> precedes WriteIndex (Signal DistLess) y)"
  by (auto simp: leaf_events_def precedes_def normalize_def leaf_handle_def split: if_splits)

text \<open>
  The fast build. In every run of it, whatever fails and however the copy of the assets
  is interleaved with the series, \<^verbatim>\<open>distCss(true)\<close> is invoked only after \<^verbatim>\<open>distLess\<close> has
  called its callback, and when there are entries the index file has been written before
  that call.
\<close>

lemma fastBuild_index_before_artifact:
  assumes "tr \<in> traces cfg glob f fastBuild"
  shows "precedes (Signal DistLess) (Invoke (DistCss True)) tr \<and>
         (glob_entries glob cfg \<noteq> [] \<longrightarrow> precedes WriteIndex (Signal DistLess) tr)"
proof -
  from fast_traces[OF assms] obtain y where
    y: "y \<in> traces cfg glob f (Series [Leaf CopyFileWatched, Leaf DistLess, Leaf DistCssDropped])"
    and tr: "tr \<in> shuffles (leaf_events cfg glob f CopyAsset) y" by blast
  have n1: "Signal DistLess \<notin> set (leaf_events cfg glob f CopyAsset)"
    and n2: "Invoke (DistCss True) \<notin> set (leaf_events cfg glob f CopyAsset)"
    and n3: "WriteIndex \<notin> set (leaf_events cfg glob f CopyAsset)"
    using copyAsset_events[of cfg glob f] by auto
  from series_traces[OF y] have p1: "precedes (Signal DistLess) (Invoke (DistCss True)) y"
    and p2: "glob_entries glob cfg \<noteq> [] \<longrightarrow> precedes WriteIndex (Signal DistLess) y" by simp_all
  show ?thesis
    using precedes_shuffles[OF tr n1 n2 p1] precedes_shuffles[OF tr n3 n1] p2 by blast
qed

text \<open>A run in which the copy of the assets starts in the middle of the series and ends
  last.\<close>

lemma fastBuild_index_before_artifact_example:
  "[Invoke CopyFileWatched, Signal CopyFileWatched, Invoke CopyAsset, Invoke DistLess, WriteIndex,
    Signal DistLess, Invoke DistCssDropped, Invoke (DistCss True), Signal CopyAsset]
     \<in> traces scenario_config (\<lambda>p. [''components/style/index.less'']) no_faults fastBuild \<and>
   precedes (Signal DistLess) (Invoke (DistCss True))
     [Invoke CopyFileWatched, Signal CopyFileWatched, Invoke CopyAsset, Invoke DistLess, WriteIndex,
      Signal DistLess, Invoke DistCssDropped, Invoke (DistCss True), Signal CopyAsset] \<and>
   glob_entries (\<lambda>p. [''components/style/index.less'']) scenario_config \<noteq> [] \<and>
   precedes WriteIndex (Signal DistLess)
     [Invoke CopyFileWatched, Signal CopyFileWatched, Invoke CopyAsset, Invoke DistLess, WriteIndex,
      Signal DistLess, Invoke DistCssDropped, Invoke (DistCss True), Signal CopyAsset]"
proof -
  have m: "[Invoke CopyFileWatched, Signal CopyFileWatched, Invoke CopyAsset, Invoke DistLess, WriteIndex,
    Signal DistLess, Invoke DistCssDropped, Invoke (DistCss True), Signal CopyAsset]
     \<in> traces scenario_config (\<lambda>p. [''components/style/index.less'']) no_faults fastBuild"
    by (simp add: fastBuild_def leaf_events_def normalize_def leaf_handle_def no_faults_def
        copyFileWatched_def destDirs_def truthy_def scenario_config_def glob_entries_def
        Cons_in_shuffles_iff image_iff)
  have g: "glob_entries (\<lambda>p. [''components/style/index.less'']) scenario_config \<noteq> []"
    by (simp add: glob_entries_def scenario_config_def)
  show ?thesis using m g fastBuild_index_before_artifact[OF m] by blast
qed

text \<open>Runs of a series and of a parallel group, put together from runs of the
  children.\<close>

lemma append_shuffles: "xs @ ys \<in> shuffles xs ys"
  by (induction xs) (simp_all add: Cons_in_shuffles_leftI)

lemma traces_parallel_append:
  "x \<in> traces cfg glob f t \<Longrightarrow> y \<in> traces_parallel cfg glob f ts \<Longrightarrow>
   x @ y \<in> traces_parallel cfg glob f (t # ts)"
  using append_shuffles by fastforce

lemma traces_series_last:
  "snd (run cfg f t) \<noteq> Completed \<Longrightarrow> x \<in> traces cfg glob f t \<Longrightarrow>
   x \<in> traces_series cfg glob f (t # ts)"
  by simp

lemma traces_series_append:
  "snd (run cfg f t) = Completed \<Longrightarrow> x \<in> traces cfg glob f t \<Longrightarrow>
   y \<in> traces_series cfg glob f ts \<Longrightarrow> x @ y \<in> traces_series cfg glob f (t # ts)"
  by auto

text \<open>
  The one-shot build. Its graph hands \<^verbatim>\<open>distLess\<close> and \<^verbatim>\<open>distCss(false)\<close> to one parallel
  group. The contract of the scheduler lets the children of a parallel group start
  together and names no order among them, so the runs of the graph include one in which
  \<^verbatim>\<open>distCss(false)\<close> is invoked before the index file is written. (gulp calls the
  children of a group in the order of the list and \<^verbatim>\<open>distLess\<close> writes before it returns,
  so the write does come first there; that rests on the scheduler at hand, not on the
  composition.)
\<close>

lemma build_run_with_artifact_first:
  "[Invoke CopyAsset, Signal CopyAsset, Invoke CopyFileWatched, Signal CopyFileWatched,
    Invoke CompileLess, Signal CompileLess, Invoke HandleStyleJSEntry, Signal HandleStyleJSEntry,
    Invoke (DistCss False), Invoke DistLess, WriteIndex, Signal DistLess, Signal (DistCss False),
    Invoke ResolveBuild]
     \<in> traces scenario_config (\<lambda>p. [''components/style/index.less'']) no_faults build_graph"
proof -
  let ?g = "\<lambda>p::string. [''components/style/index.less'']"
  let ?first = "Parallel [Leaf CopyAsset, Leaf CopyFileWatched, Leaf CompileLess, Leaf HandleStyleJSEntry]"
  let ?second = "Parallel [Leaf DistLess, Leaf (DistCss False)]"
  have l: "leaf_events scenario_config ?g no_faults CopyAsset = [Invoke CopyAsset, Signal CopyAsset]"
    "leaf_events scenario_config ?g no_faults CopyFileWatched = [Invoke CopyFileWatched, Signal CopyFileWatched]"
    "leaf_events scenario_config ?g no_faults CompileLess = [Invoke CompileLess, Signal CompileLess]"
    "leaf_events scenario_config ?g no_faults HandleStyleJSEntry
       = [Invoke HandleStyleJSEntry, Signal HandleStyleJSEntry]"
    "leaf_events scenario_config ?g no_faults DistLess = [Invoke DistLess, WriteIndex, Signal DistLess]"
    "leaf_events scenario_config ?g no_faults (DistCss False) = [Invoke (DistCss False), Signal (DistCss False)]"
    "leaf_events scenario_config ?g no_faults ResolveBuild = [Invoke ResolveBuild]"
    by (simp_all add: leaf_events_def normalize_def leaf_handle_def no_faults_def copyFileWatched_def
        destDirs_def truthy_def scenario_config_def glob_entries_def js_str_def)
  have r1: "snd (run scenario_config no_faults ?first) = Completed"
    by (simp add: normalize_def leaf_handle_def no_faults_def copyFileWatched_def destDirs_def
        truthy_def scenario_config_def both_def js_str_def)
  have r2: "snd (run scenario_config no_faults ?second) = Completed"
    by (simp add: normalize_def leaf_handle_def no_faults_def both_def)
  have t1: "[Invoke CopyAsset, Signal CopyAsset] @ [Invoke CopyFileWatched, Signal CopyFileWatched] @
      [Invoke CompileLess, Signal CompileLess] @ [Invoke HandleStyleJSEntry, Signal HandleStyleJSEntry] @ []
      \<in> traces scenario_config ?g no_faults ?first"
    unfolding traces.simps
    by (intro traces_parallel_append) (simp_all add: l)
  have t2: "[Invoke (DistCss False), Invoke DistLess, WriteIndex, Signal DistLess, Signal (DistCss False)]
      \<in> traces scenario_config ?g no_faults ?second"
    by (simp add: l Cons_in_shuffles_iff image_iff)
  have r3: "snd (run scenario_config no_faults (Parallel [Leaf ResolveBuild])) \<noteq> Completed"
    by (simp add: normalize_def leaf_handle_def both_def)
  have t3: "[Invoke ResolveBuild] \<in> traces scenario_config ?g no_faults (Parallel [Leaf ResolveBuild])"
    by (simp add: l)
  have "([Invoke CopyAsset, Signal CopyAsset] @ [Invoke CopyFileWatched, Signal CopyFileWatched] @
      [Invoke CompileLess, Signal CompileLess] @ [Invoke HandleStyleJSEntry, Signal HandleStyleJSEntry] @ []) @
     [Invoke (DistCss False), Invoke DistLess, WriteIndex, Signal DistLess, Signal (DistCss False)] @
     [Invoke ResolveBuild]
     \<in> traces scenario_config ?g no_faults build_graph"
    unfolding build_graph_def traces.simps(2)
    by (intro traces_series_append r1 r2 t1 t2 traces_series_last[OF r3 t3])
  then show ?thesis by simp
qed


subsection \<open>The completion of the fast build\<close>

text \<open>
  C10, as the code has it. The last step of the series calls \<^verbatim>\<open>distCss(true)\<close>, drops
  the stream and has no callback, so it gives nothing back to the scheduler, and the
  fast build never signals completion, whatever its streams do and whether or not the
  artifact has been written.
\<close>

theorem fastBuild_never_signals_completion:
  "leaf_handle cfg f DistCssDropped = ReturnedNothing \<and>
   snd (run cfg f fastBuild) \<noteq> Completed"
  by (auto simp add: fastBuild_def normalize_def leaf_handle_def both_def
      split: prod.splits if_splits promise.splits)

text \<open>Without any failure the last step is reached, and the graph has not completed.\<close>

theorem fastBuild_never_signals_completion_witness:
  "DistCssDropped \<in> set (fst (run scenario_config no_faults fastBuild)) \<and>
   leaf_handle scenario_config no_faults DistCssDropped = ReturnedNothing \<and>
   snd (run scenario_config no_faults fastBuild) \<noteq> Completed"
proof -
  have m: "DistCssDropped \<in> set (fst (run scenario_config no_faults fastBuild))"
    by (simp add: fastBuild_def normalize_def leaf_handle_def no_faults_def copyFileWatched_def
        destDirs_def truthy_def scenario_config_def)
  show ?thesis using m fastBuild_never_signals_completion[of scenario_config no_faults] by blast
qed

text \<open>C10, as the claim has it: with the sample configuration there is no behaviour of
  the streams and of the imported handler under which the fast build signals completion.\<close>

theorem fastBuild_completion_counterexample:
  "\<not> (\<exists>f. snd (run scenario_config f fastBuild) = Completed)"
  by (auto simp add: fastBuild_def normalize_def leaf_handle_def both_def
      split: prod.splits if_splits promise.splits)

end
